theory Spec2Isabelle
  imports Main "HOL-Library.Word"
begin

unbundle bit_operations_syntax

section \<open>Machine integers of the source\<close>

text \<open>
  \<^verbatim>\<open>unsigned\<close> and \<^verbatim>\<open>int\<close> are 32 bits wide, \<^verbatim>\<open>unsigned long\<close> is 64 bits wide
  (LP64). Unsigned arithmetic wraps around. A C \<^verbatim>\<open>int\<close> is a 32-bit word read with
  \<open>sint\<close>; signed overflow is undefined in C++, the word operations give the
  two's-complement result there and the theorems about \<^verbatim>\<open>int\<close> values say where they
  rely on the absence of overflow.
\<close>

type_synonym cunsigned = "32 word"
type_synonym cint = "32 word"
type_synonym ulong = "64 word"

section \<open>The thread pool, as seen from the calling thread\<close>

text \<open>
  \<^verbatim>\<open>Substrate::ThreadPool\<close> is not part of the sources at hand. The abort handler and the
  executor only read the topology of the calling thread from it, so the topology is a
  parameter: one record per calling thread.
\<close>

record ThreadPool =
  getTID :: cunsigned
  getPackage :: cunsigned
  getLeader :: cunsigned
  isLeader :: bool
  getMaxPackages :: cunsigned
  getLeaderForPackage :: "cunsigned \<Rightarrow> cunsigned"

section \<open>AbortHandler\<close>

text \<open>\<^verbatim>\<open>struct Item { value_type val; int retries; };\<close>\<close>

record 'v Item =
  val :: 'v
  retries :: cint

text \<open>
  Modelled from the spec: \<^verbatim>\<open>PerThreadStorage<AbortedList> queues\<close> holds one FIFO per
  thread. The per-thread storage is a function from thread ids to queues; a queue
  (\<^verbatim>\<open>WorkList::GFIFO<Item>\<close>) is a list, pushed at the back and popped at the front.
  \<^verbatim>\<open>bool useBasicPolicy\<close> is the field of the source.
\<close>

record 'v AbortHandler =
  queues :: "cunsigned \<Rightarrow> 'v Item list"
  useBasicPolicy :: bool

text \<open>\<^verbatim>\<open>queues.getRemote(t)->push(item)\<close>; \<^verbatim>\<open>getLocal()\<close> is \<^verbatim>\<open>getRemote(getTID())\<close>.\<close>

definition queue_push :: "cunsigned \<Rightarrow> 'v Item \<Rightarrow> 'v AbortHandler \<Rightarrow> 'v AbortHandler" where
  "queue_push t item ah = ah\<lparr>queues := (queues ah)(t := queues ah t @ [item])\<rparr>"

definition basicPolicy :: "ThreadPool \<Rightarrow> 'v Item \<Rightarrow> 'v AbortHandler \<Rightarrow> 'v AbortHandler" where
  "basicPolicy tp item ah =
     (let package = getPackage tp
      in queue_push (getLeaderForPackage tp (package div 2)) item ah)"

definition doublePolicy :: "ThreadPool \<Rightarrow> 'v Item \<Rightarrow> 'v AbortHandler \<Rightarrow> 'v AbortHandler" where
  "doublePolicy tp item ah =
     (let r = retries item - 1
      in if r AND 1 = 1 then queue_push (getTID tp) item ah
         else
           (let tid = getTID tp; package = getPackage tp; leader = getLeader tp
            in if tid \<noteq> leader
               then (let next = leader + (tid - leader) div 2 in queue_push next item ah)
               else queue_push (getLeaderForPackage tp (package div 2)) item ah))"

definition boundedPolicy :: "ThreadPool \<Rightarrow> 'v Item \<Rightarrow> 'v AbortHandler \<Rightarrow> 'v AbortHandler" where
  "boundedPolicy tp item ah =
     (let r = retries item - 1
      in if sint r < 2 then queue_push (getTID tp) item ah
         else
           (let tid = getTID tp; package = getPackage tp;
                leader = getLeaderForPackage tp package
            in if sint r < 5 \<and> tid \<noteq> leader
               then (let next = leader + (tid - leader) div 2 in queue_push next item ah)
               else queue_push (getLeaderForPackage tp (package div 2)) item ah))"

definition eagerPolicy :: "ThreadPool \<Rightarrow> 'v Item \<Rightarrow> 'v AbortHandler \<Rightarrow> 'v AbortHandler" where
  "eagerPolicy tp item ah = queue_push (getTID tp) item ah"

text \<open>The constructor: \<^verbatim>\<open>useBasicPolicy = getThreadPool().getMaxPackages() > 2;\<close>\<close>

definition AbortHandler_init :: "ThreadPool \<Rightarrow> 'v AbortHandler" where
  "AbortHandler_init tp = \<lparr>queues = (\<lambda>t. []), useBasicPolicy = (2 < getMaxPackages tp)\<rparr>"

text \<open>\<^verbatim>\<open>void push(const value_type& val)\<close>: the overload taken by a value popped from the worklist.\<close>

definition push_value :: "ThreadPool \<Rightarrow> 'v \<Rightarrow> 'v AbortHandler \<Rightarrow> 'v AbortHandler" where
  "push_value tp v ah = (let item = \<lparr>val = v, retries = 1\<rparr> in queue_push (getTID tp) item ah)"

text \<open>\<^verbatim>\<open>void push(const Item& item)\<close>: the overload taken by a record popped from an abort queue.\<close>

definition push_Item :: "ThreadPool \<Rightarrow> 'v Item \<Rightarrow> 'v AbortHandler \<Rightarrow> 'v AbortHandler" where
  "push_Item tp item ah =
     (let newitem = \<lparr>val = val item, retries = retries item + 1\<rparr>
      in if useBasicPolicy ah then basicPolicy tp newitem ah else doublePolicy tp newitem ah)"

text \<open>
  What \<^verbatim>\<open>runQueue\<close> pops is a \<^verbatim>\<open>value_type\<close> (from the shared worklist) or an
  \<^verbatim>\<open>Item\<close> (from an abort queue); the overloads of \<^verbatim>\<open>value\<close> and \<^verbatim>\<open>push\<close> are chosen
  by that type.
\<close>

datatype 'v popped = Val 'v | Itm "'v Item"

fun value_of :: "'v popped \<Rightarrow> 'v" where
  "value_of (Val v) = v"
| "value_of (Itm i) = val i"

fun push :: "ThreadPool \<Rightarrow> 'v popped \<Rightarrow> 'v AbortHandler \<Rightarrow> 'v AbortHandler" where
  "push tp (Val v) ah = push_value tp v ah"
| "push tp (Itm i) ah = push_Item tp i ah"

text \<open>\<^verbatim>\<open>getQueue()\<close> and the pop of the calling thread's own queue.\<close>

definition getQueue :: "ThreadPool \<Rightarrow> 'v AbortHandler \<Rightarrow> 'v Item list" where
  "getQueue tp ah = queues ah (getTID tp)"

definition queue_pop :: "ThreadPool \<Rightarrow> 'v AbortHandler \<Rightarrow> 'v Item option \<times> 'v AbortHandler" where
  "queue_pop tp ah =
     (case getQueue tp ah of
        [] \<Rightarrow> (None, ah)
      | item # rest \<Rightarrow> (Some item, ah\<lparr>queues := (queues ah)(getTID tp := rest)\<rparr>))"

text \<open>The queue an escalation policy sends a record to.\<close>

definition basicTarget :: "ThreadPool \<Rightarrow> cunsigned" where
  "basicTarget tp = getLeaderForPackage tp (getPackage tp div 2)"

definition doubleTarget :: "ThreadPool \<Rightarrow> cint \<Rightarrow> cunsigned" where
  "doubleTarget tp old_retries =
     (if old_retries AND 1 = 1 then getTID tp
      else if getTID tp \<noteq> getLeader tp
        then getLeader tp + (getTID tp - getLeader tp) div 2
        else getLeaderForPackage tp (getPackage tp div 2))"

text \<open>A machine with two packages of two threads, seen from thread 3.\<close>

definition tp_two_packages :: ThreadPool where
  "tp_two_packages =
     \<lparr>getTID = 3, getPackage = 1, getLeader = 2, isLeader = False, getMaxPackages = 2,
      getLeaderForPackage = (\<lambda>p. 2 * p)\<rparr>"

text \<open>A machine with four packages of two threads, seen from thread 5.\<close>

definition tp_four_packages :: ThreadPool where
  "tp_four_packages =
     \<lparr>getTID = 5, getPackage = 2, getLeader = 4, isLeader = False, getMaxPackages = 4,
      getLeaderForPackage = (\<lambda>p. 2 * p)\<rparr>"

section \<open>The for-each executor\<close>

text \<open>
  The trait flags of \<^verbatim>\<open>ForEachExecutor\<close>, fixed at compile time from \<^verbatim>\<open>ArgsTy\<close>.
\<close>

record config =
  needsStats :: bool
  needsPush :: bool
  needsAborts :: bool
  needsPia :: bool
  needsBreak :: bool

text \<open>
  How a call of the operator ends: it returns, or it throws \<^verbatim>\<open>ConflictFlag\<close>.
\<close>

datatype signal = Returned | ConflictFlag

text \<open>
  The operator (\<^verbatim>\<open>FunctionTy\<close>) is a function of the item and of the data it works on.
  What it did until it returned or threw: the data as it left them, the items it
  handed to \<^verbatim>\<open>ctx.push\<close> in order, the amount it took from the per-iteration
  allocator, and whether it called \<^verbatim>\<open>ctx.breakLoop\<close>.
\<close>

record ('v, 'g) op_result =
  op_signal :: signal
  op_world :: 'g
  op_pushes :: "'v list"
  op_allocs :: nat
  op_break :: bool

text \<open>The two queues \<^verbatim>\<open>runQueue\<close> is instantiated with.\<close>

datatype queue_sel = SharedWL | AbortedQ

text \<open>
  The calls the executor makes to its collaborators (conflict context, user context,
  worklist, termination detection, barrier, statistics), in the order it makes them.
  \<open>WlPop v\<close> is a \<^verbatim>\<open>wl.pop()\<close> that returned \<open>v\<close>, \<open>Apply v sg\<close> a call of the
  operator on \<open>v\<close> that ended with \<open>sg\<close>.
\<close>

datatype 'v event =
    StartIteration
  | CommitIteration
  | CancelIteration
  | Apply 'v signal
  | WlPop 'v
  | WlPush "'v list"
  | ResetPushBuffer
  | ResetAlloc
  | SetBreakFlag
  | SetThreadContext bool
  | SetFastPushBack
  | RunQueue queue_sel nat
  | RunQueueSimple
  | LocalTermination bool
  | GlobalTermination bool
  | CheckEmpty bool
  | InitializeThread
  | BarrierWait
  | ReportStat string ulong

text \<open>
  What the executor is instantiated with. The worklist type \<^verbatim>\<open>WorkListTy\<close>, the
  termination detector and the barrier are interfaces whose implementations are not
  part of the sources at hand: their operations are parameters, on a worklist state
  \<open>'w\<close> and a state \<open>'t\<close> shared by termination detection and barrier.
  \<open>wl_empty\<close> is \<open>None\<close> for a worklist type without \<^verbatim>\<open>empty()\<close>.
  \<open>assertions\<close> tells whether \<^verbatim>\<open>assert\<close> is compiled in. \<open>spill\<close> is the
  decision of \<^verbatim>\<open>UserContext::push\<close> (UserContext.h is missing) to hand the push
  buffer, as it stands after the push, to an installed fast-push-back callback.
\<close>

record ('v, 'w, 't, 'g) executor =
  cfg :: config
  origFunction :: "'v \<Rightarrow> 'g \<Rightarrow> ('v, 'g) op_result"
  threadPool :: ThreadPool
  activeThreads :: cunsigned
  assertions :: bool
  spill :: "'v list \<Rightarrow> bool"
  wl_pop :: "'w \<Rightarrow> 'v option \<times> 'w"
  wl_push :: "'v list \<Rightarrow> 'w \<Rightarrow> 'w"
  wl_push_initial :: "'v list \<Rightarrow> 'w \<Rightarrow> 'w"
  wl_empty :: "('w \<Rightarrow> bool) option"
  localTermination :: "bool \<Rightarrow> 't \<Rightarrow> 't"
  globalTermination :: "'t \<Rightarrow> bool"
  initializeThread :: "'t \<Rightarrow> 't"
  barrier_wait :: "'t \<Rightarrow> 't"

text \<open>
  The state one worker reads and writes. From \<^verbatim>\<open>ThreadLocalData\<close>: the push buffer,
  the per-iteration allocator, the installed callbacks of \<^verbatim>\<open>facing\<close> and the three
  counters. From \<^verbatim>\<open>ForEachExecutor\<close>: \<^verbatim>\<open>aborted\<close>, \<^verbatim>\<open>term\<close> (with the barrier, as \<open>termDetect\<close>),
  \<^verbatim>\<open>wl\<close> and \<^verbatim>\<open>broke\<close>. \<open>world\<close> is the data the operator works on and \<open>trace\<close>
  the calls made so far.
\<close>

record ('v, 'w, 't, 'g) state =
  pushBuffer :: "'v list"
  allocated :: nat
  fastPushBackSet :: bool
  breakFlagSet :: bool
  stat_conflicts :: ulong
  stat_iterations :: ulong
  stat_pushes :: ulong
  aborted :: "'v AbortHandler"
  termDetect :: 't
  wl :: 'w
  broke :: bool
  world :: 'g
  trace :: "'v event list"

datatype status = Finished | OutOfFuel | UncaughtConflict | AssertionFailed

definition emit :: "'v event \<Rightarrow> ('v, 'w, 't, 'g) state \<Rightarrow> ('v, 'w, 't, 'g) state" where
  "emit e s = s\<lparr>trace := trace s @ [e]\<rparr>"

subsection \<open>The user context\<close>

text \<open>
  \<^verbatim>\<open>ForEachExecutor::fastPushBack\<close>: \<^verbatim>\<open>wl.push(x.begin(), x.end()); x.clear();\<close>
\<close>

definition fastPushBack ::
  "('v, 'w, 't, 'g) executor \<Rightarrow> ('v, 'w, 't, 'g) state \<Rightarrow> ('v, 'w, 't, 'g) state" where
  "fastPushBack E s =
     (let x = pushBuffer s
      in (emit (WlPush x) s)\<lparr>wl := wl_push E x (wl s), pushBuffer := []\<rparr>)"

text \<open>
  Modelled from the spec: \<^verbatim>\<open>UserContext::push\<close>, \<^verbatim>\<open>UserContext::breakLoop\<close> and the
  reset operations of \<^verbatim>\<open>UserContextAccess\<close> (UserContext.h and UserContextAccess.h are
  missing). The push buffer is the ordered sequence of the items staged by the
  operator; with the fast-push-back callback installed the buffer may spill directly
  into the worklist in the middle of an iteration; the break flag, when installed,
  points to \<^verbatim>\<open>broke\<close>; the allocator is reset as a whole.
\<close>

definition user_push ::
  "('v, 'w, 't, 'g) executor \<Rightarrow> 'v \<Rightarrow> ('v, 'w, 't, 'g) state \<Rightarrow> ('v, 'w, 't, 'g) state" where
  "user_push E v s =
     (let s1 = s\<lparr>pushBuffer := pushBuffer s @ [v]\<rparr>
      in if fastPushBackSet s1 \<and> spill E (pushBuffer s1) then fastPushBack E s1 else s1)"

definition breakLoop :: "('v, 'w, 't, 'g) state \<Rightarrow> ('v, 'w, 't, 'g) state" where
  "breakLoop s = (if breakFlagSet s then s\<lparr>broke := True\<rparr> else s)"

definition resetPushBuffer :: "('v, 'w, 't, 'g) state \<Rightarrow> ('v, 'w, 't, 'g) state" where
  "resetPushBuffer s = (emit ResetPushBuffer s)\<lparr>pushBuffer := []\<rparr>"

definition resetAlloc :: "('v, 'w, 't, 'g) state \<Rightarrow> ('v, 'w, 't, 'g) state" where
  "resetAlloc s = (emit ResetAlloc s)\<lparr>allocated := 0\<rparr>"

definition setBreakFlag :: "('v, 'w, 't, 'g) state \<Rightarrow> ('v, 'w, 't, 'g) state" where
  "setBreakFlag s = (emit SetBreakFlag s)\<lparr>breakFlagSet := True\<rparr>"

definition setFastPushBack :: "('v, 'w, 't, 'g) state \<Rightarrow> ('v, 'w, 't, 'g) state" where
  "setFastPushBack s = (emit SetFastPushBack s)\<lparr>fastPushBackSet := True\<rparr>"

text \<open>
  \<^verbatim>\<open>tld.function(val, tld.facing.data())\<close>: the operator runs on the item; what it did
  is applied to the state, whether it returned or threw.
\<close>

definition call_function ::
  "('v, 'w, 't, 'g) executor \<Rightarrow> 'v \<Rightarrow> ('v, 'w, 't, 'g) state \<Rightarrow> signal \<times> ('v, 'w, 't, 'g) state" where
  "call_function E v s =
     (let r = origFunction E v (world s);
          s1 = emit (Apply v (op_signal r)) s;
          s2 = s1\<lparr>world := op_world r\<rparr>;
          s3 = fold (user_push E) (op_pushes r) s2;
          s4 = s3\<lparr>allocated := allocated s3 + op_allocs r\<rparr>;
          s5 = (if op_break r then breakLoop s4 else s4)
      in (op_signal r, s5))"

subsection \<open>Commit, abort and one iteration\<close>

definition commitIteration ::
  "('v, 'w, 't, 'g) executor \<Rightarrow> ('v, 'w, 't, 'g) state \<Rightarrow> ('v, 'w, 't, 'g) state" where
  "commitIteration E s =
     (let s1 =
            (if needsPush (cfg E)
             then (let pb = pushBuffer s; n = length pb
                   in if n \<noteq> 0
                      then (emit (WlPush pb) (s\<lparr>stat_pushes := stat_pushes s + of_nat n\<rparr>))
                             \<lparr>wl := wl_push E pb (wl s), pushBuffer := []\<rparr>
                      else s)
             else s);
          s2 = (if needsPia (cfg E) then resetAlloc s1 else s1);
          s3 = (if needsAborts (cfg E) then emit CommitIteration s2 else s2)
      in s3)"

definition abortIteration ::
  "('v, 'w, 't, 'g) executor \<Rightarrow> 'v popped \<Rightarrow> ('v, 'w, 't, 'g) state
     \<Rightarrow> status \<times> ('v, 'w, 't, 'g) state" where
  "abortIteration E item s =
     (if assertions E \<and> \<not> needsAborts (cfg E) then (AssertionFailed, s)
      else
        (let s1 = emit CancelIteration s;
             s2 = s1\<lparr>stat_conflicts := stat_conflicts s1 + 1\<rparr>;
             s3 = s2\<lparr>aborted := push (threadPool E) item (aborted s2)\<rparr>;
             s4 = (if needsPush (cfg E) then resetPushBuffer s3 else s3);
             s5 = (if needsPia (cfg E) then resetAlloc s4 else s4)
         in (Finished, s5)))"

definition doProcess ::
  "('v, 'w, 't, 'g) executor \<Rightarrow> 'v \<Rightarrow> ('v, 'w, 't, 'g) state \<Rightarrow> signal \<times> ('v, 'w, 't, 'g) state" where
  "doProcess E v s =
     (let s1 = (if needsAborts (cfg E) then emit StartIteration s else s);
          s2 = s1\<lparr>stat_iterations := stat_iterations s1 + 1\<rparr>
      in case call_function E v s2 of
           (ConflictFlag, s3) \<Rightarrow> (ConflictFlag, s3)
         | (Returned, s3) \<Rightarrow> (Returned, commitIteration E s3))"

subsection \<open>The queue loops\<close>

text \<open>\<^verbatim>\<open>lwl.pop()\<close> on the shared worklist or on the calling thread's abort queue.\<close>

definition pop ::
  "('v, 'w, 't, 'g) executor \<Rightarrow> queue_sel \<Rightarrow> ('v, 'w, 't, 'g) state
     \<Rightarrow> 'v popped option \<times> ('v, 'w, 't, 'g) state" where
  "pop E q s =
     (case q of
        SharedWL \<Rightarrow>
          (case wl_pop E (wl s) of
             (None, w) \<Rightarrow> (None, s\<lparr>wl := w\<rparr>)
           | (Some v, w) \<Rightarrow> (Some (Val v), emit (WlPop v) (s\<lparr>wl := w\<rparr>)))
      | AbortedQ \<Rightarrow>
          (case queue_pop (threadPool E) (aborted s) of
             (p, ah) \<Rightarrow> (map_option Itm p, s\<lparr>aborted := ah\<rparr>)))"

text \<open>
  Every loop takes fuel: one unit per turn of the loop. A loop that runs out of fuel
  stops where it is and says so, and the state it returns is the state the program
  has reached by then.
\<close>

datatype ('v, 's) loop_result = Drained 's | Thrown "'v popped" 's | Exhausted 's

text \<open>
  The \<^verbatim>\<open>while\<close> of \<^verbatim>\<open>runQueue\<close>:
  \<^verbatim>\<open>while ((!limit || num++ < limit) && (p = lwl.pop())) doProcess(aborted.value(*p), tld);\<close>
  It ends when the guard fails, or when \<^verbatim>\<open>doProcess\<close> throws, with \<^verbatim>\<open>p\<close> still
  holding what was popped.
\<close>

fun runQueue_loop ::
  "('v, 'w, 't, 'g) executor \<Rightarrow> queue_sel \<Rightarrow> nat \<Rightarrow> nat \<Rightarrow> nat \<Rightarrow> ('v, 'w, 't, 'g) state
     \<Rightarrow> ('v, ('v, 'w, 't, 'g) state) loop_result" where
  "runQueue_loop E q limit 0 num s = Exhausted s"
| "runQueue_loop E q limit (Suc fuel) num s =
     (if limit \<noteq> 0 \<and> \<not> num < limit then Drained s
      else
        (let num' = (if limit \<noteq> 0 then num + 1 else num)
         in case pop E q s of
              (None, s1) \<Rightarrow> Drained s1
            | (Some p, s1) \<Rightarrow>
                (case doProcess E (value_of p) s1 of
                   (ConflictFlag, s2) \<Rightarrow> Thrown p s2
                 | (Returned, s2) \<Rightarrow> runQueue_loop E q limit fuel num' s2)))"

text \<open>\<^verbatim>\<open>runQueue<limit>(tld, lwl)\<close>: the loop inside \<^verbatim>\<open>try\<close>, and the \<^verbatim>\<open>catch\<close>.\<close>

definition runQueue ::
  "('v, 'w, 't, 'g) executor \<Rightarrow> nat \<Rightarrow> nat \<Rightarrow> queue_sel \<Rightarrow> ('v, 'w, 't, 'g) state
     \<Rightarrow> status \<times> ('v, 'w, 't, 'g) state" where
  "runQueue E fuel limit q s =
     (case runQueue_loop E q limit fuel 0 (emit (RunQueue q limit) s) of
        Drained s1 \<Rightarrow> (Finished, s1)
      | Exhausted s1 \<Rightarrow> (OutOfFuel, s1)
      | Thrown p s1 \<Rightarrow> abortIteration E p s1)"

definition handleAborts ::
  "('v, 'w, 't, 'g) executor \<Rightarrow> nat \<Rightarrow> ('v, 'w, 't, 'g) state
     \<Rightarrow> status \<times> ('v, 'w, 't, 'g) state" where
  "handleAborts E fuel s = runQueue E fuel 0 AbortedQ s"

text \<open>
  \<^verbatim>\<open>runQueueSimple\<close>: \<^verbatim>\<open>while ((p = wl.pop())) doProcess(*p, tld);\<close> with no handler, so
  a \<^verbatim>\<open>ConflictFlag\<close> leaves the executor.
\<close>

fun runQueueSimple_loop ::
  "('v, 'w, 't, 'g) executor \<Rightarrow> nat \<Rightarrow> ('v, 'w, 't, 'g) state
     \<Rightarrow> status \<times> ('v, 'w, 't, 'g) state" where
  "runQueueSimple_loop E 0 s = (OutOfFuel, s)"
| "runQueueSimple_loop E (Suc fuel) s =
     (case wl_pop E (wl s) of
        (None, w) \<Rightarrow> (Finished, s\<lparr>wl := w\<rparr>)
      | (Some v, w) \<Rightarrow>
          (case doProcess E v (emit (WlPop v) (s\<lparr>wl := w\<rparr>)) of
             (ConflictFlag, s2) \<Rightarrow> (UncaughtConflict, s2)
           | (Returned, s2) \<Rightarrow> runQueueSimple_loop E fuel s2))"

definition runQueueSimple ::
  "('v, 'w, 't, 'g) executor \<Rightarrow> nat \<Rightarrow> ('v, 'w, 't, 'g) state
     \<Rightarrow> status \<times> ('v, 'w, 't, 'g) state" where
  "runQueueSimple E fuel s = runQueueSimple_loop E fuel (emit RunQueueSimple s)"

subsection \<open>The worker loop\<close>

text \<open>
  \<^verbatim>\<open>checkEmpty\<close>: the overload for a worklist with \<^verbatim>\<open>empty()\<close> asks it, the
  fallback returns \<^verbatim>\<open>true\<close>.
\<close>

definition checkEmpty :: "('v, 'w, 't, 'g) executor \<Rightarrow> ('v, 'w, 't, 'g) state \<Rightarrow> bool" where
  "checkEmpty E s = (case wl_empty E of None \<Rightarrow> True | Some e \<Rightarrow> e (wl s))"

definition term_localTermination ::
  "('v, 'w, 't, 'g) executor \<Rightarrow> bool \<Rightarrow> ('v, 'w, 't, 'g) state \<Rightarrow> ('v, 'w, 't, 'g) state" where
  "term_localTermination E didWork s =
     (emit (LocalTermination didWork) s)\<lparr>termDetect := localTermination E didWork (termDetect s)\<rparr>"

definition term_initializeThread ::
  "('v, 'w, 't, 'g) executor \<Rightarrow> ('v, 'w, 't, 'g) state \<Rightarrow> ('v, 'w, 't, 'g) state" where
  "term_initializeThread E s =
     (emit InitializeThread s)\<lparr>termDetect := initializeThread E (termDetect s)\<rparr>"

definition barrier_wait_call ::
  "('v, 'w, 't, 'g) executor \<Rightarrow> ('v, 'w, 't, 'g) state \<Rightarrow> ('v, 'w, 't, 'g) state" where
  "barrier_wait_call E s = (emit BarrierWait s)\<lparr>termDetect := barrier_wait E (termDetect s)\<rparr>"

text \<open>
  The block under \<^verbatim>\<open>// Run some iterations\<close> in \<^verbatim>\<open>go<couldAbort, isLeader>\<close>, with
  \<^verbatim>\<open>constexpr int __NUM = (needsBreak || isLeader) ? 64 : 0;\<close>
\<close>

definition runSomeIterations ::
  "('v, 'w, 't, 'g) executor \<Rightarrow> bool \<Rightarrow> bool \<Rightarrow> nat \<Rightarrow> ('v, 'w, 't, 'g) state
     \<Rightarrow> status \<times> ('v, 'w, 't, 'g) state" where
  "runSomeIterations E couldAbort isLeader' fuel s =
     (if couldAbort \<or> needsBreak (cfg E)
      then
        (let NUM = (if needsBreak (cfg E) \<or> isLeader' then 64 else 0)
         in case runQueue E fuel NUM SharedWL s of
              (Finished, s1) \<Rightarrow> (if couldAbort then handleAborts E fuel s1 else (Finished, s1))
            | (st, s1) \<Rightarrow> (st, s1))
      else runQueueSimple E fuel s)"

text \<open>
  The \<^verbatim>\<open>do { ... } while (!term.globalTermination() && (!needsBreak || !broke));\<close>
  of \<^verbatim>\<open>go\<close>. \<open>budget\<close> is the fuel handed to each queue loop, \<open>old\<close> is
  \<^verbatim>\<open>old_iterations\<close>.
\<close>

fun go_inner ::
  "('v, 'w, 't, 'g) executor \<Rightarrow> bool \<Rightarrow> bool \<Rightarrow> nat \<Rightarrow> nat \<Rightarrow> ulong \<Rightarrow> ('v, 'w, 't, 'g) state
     \<Rightarrow> status \<times> ulong \<times> ('v, 'w, 't, 'g) state" where
  "go_inner E couldAbort isLeader' budget 0 old s = (OutOfFuel, old, s)"
| "go_inner E couldAbort isLeader' budget (Suc fuel) old s =
     (case runSomeIterations E couldAbort isLeader' budget s of
        (Finished, s1) \<Rightarrow>
          (let didWork = (old \<noteq> stat_iterations s1);
               old' = stat_iterations s1;
               s2 = term_localTermination E didWork s1;
               g = globalTermination E (termDetect s2);
               s3 = emit (GlobalTermination g) s2
           in if \<not> g \<and> (\<not> needsBreak (cfg E) \<or> \<not> broke s3)
              then go_inner E couldAbort isLeader' budget fuel old' s3
              else (Finished, old', s3))
      | (st, s1) \<Rightarrow> (st, old, s1))"

text \<open>The \<^verbatim>\<open>while (true)\<close> of \<^verbatim>\<open>go\<close>.\<close>

fun go_outer ::
  "('v, 'w, 't, 'g) executor \<Rightarrow> bool \<Rightarrow> bool \<Rightarrow> nat \<Rightarrow> nat \<Rightarrow> ulong \<Rightarrow> ('v, 'w, 't, 'g) state
     \<Rightarrow> status \<times> ('v, 'w, 't, 'g) state" where
  "go_outer E couldAbort isLeader' budget 0 old s = (OutOfFuel, s)"
| "go_outer E couldAbort isLeader' budget (Suc fuel) old s =
     (case go_inner E couldAbort isLeader' budget budget old s of
        (Finished, old', s1) \<Rightarrow>
          (let e = checkEmpty E s1;
               s2 = emit (CheckEmpty e) s1
           in if e then (Finished, s2)
              else if needsBreak (cfg E) \<and> broke s2 then (Finished, s2)
              else go_outer E couldAbort isLeader' budget fuel old'
                     (barrier_wait_call E (term_initializeThread E s2)))
      | (st, old', s1) \<Rightarrow> (st, s1))"

text \<open>Constructor and destructor of \<^verbatim>\<open>ThreadLocalData\<close>.\<close>

definition ThreadLocalData_init :: "('v, 'w, 't, 'g) state \<Rightarrow> ('v, 'w, 't, 'g) state" where
  "ThreadLocalData_init s =
     s\<lparr>pushBuffer := [], allocated := 0, fastPushBackSet := False, breakFlagSet := False,
       stat_conflicts := 0, stat_iterations := 0, stat_pushes := 0\<rparr>"

definition ThreadLocalData_destroy ::
  "('v, 'w, 't, 'g) executor \<Rightarrow> ('v, 'w, 't, 'g) state \<Rightarrow> ('v, 'w, 't, 'g) state" where
  "ThreadLocalData_destroy E s =
     (if needsStats (cfg E)
      then emit (ReportStat ''Iterations'' (stat_iterations s))
             (emit (ReportStat ''Pushes'' (stat_pushes s))
               (emit (ReportStat ''Commits'' (stat_iterations s - stat_conflicts s))
                 (emit (ReportStat ''Conflicts'' (stat_conflicts s)) s)))
      else s)"

text \<open>
  \<^verbatim>\<open>go<couldAbort, isLeader>()\<close>. The thread-local data \<^verbatim>\<open>tld\<close> are an automatic object
  of \<^verbatim>\<open>go\<close>: they are built at its start, and \<^verbatim>\<open>~ThreadLocalData\<close> runs when control
  leaves \<^verbatim>\<open>go\<close>, that is when it returns and also when a \<^verbatim>\<open>ConflictFlag\<close> that
  \<^verbatim>\<open>runQueueSimple\<close> does not catch unwinds its frame; \<^verbatim>\<open>setThreadContext(0)\<close> is
  reached only by a return. A failed \<^verbatim>\<open>assert\<close> ends the program, and a loop that is out
  of fuel has not left \<^verbatim>\<open>go\<close>: the destructor has not run in either state.
\<close>

definition go ::
  "('v, 'w, 't, 'g) executor \<Rightarrow> bool \<Rightarrow> bool \<Rightarrow> nat \<Rightarrow> ('v, 'w, 't, 'g) state
     \<Rightarrow> status \<times> ('v, 'w, 't, 'g) state" where
  "go E couldAbort isLeader' fuel s =
     (let s0 = ThreadLocalData_init s;
          s1 = (if needsBreak (cfg E) then setBreakFlag s0 else s0);
          s2 = (if couldAbort then emit (SetThreadContext True) s1 else s1);
          s3 = (if needsPush (cfg E) \<and> \<not> couldAbort then setFastPushBack s2 else s2)
      in case go_outer E couldAbort isLeader' fuel fuel 0 s3 of
           (Finished, s4) \<Rightarrow>
             (let s5 = (if couldAbort then emit (SetThreadContext False) s4 else s4)
              in (Finished, ThreadLocalData_destroy E s5))
         | (UncaughtConflict, s4) \<Rightarrow> (UncaughtConflict, ThreadLocalData_destroy E s4)
         | (st, s4) \<Rightarrow> (st, s4))"

text \<open>\<^verbatim>\<open>ForEachExecutor::operator()()\<close>: the choice among the four instances of \<^verbatim>\<open>go\<close>.\<close>

definition couldAbort_of :: "('v, 'w, 't, 'g) executor \<Rightarrow> bool" where
  "couldAbort_of E = (needsAborts (cfg E) \<and> 1 < activeThreads E)"

definition executor_call ::
  "('v, 'w, 't, 'g) executor \<Rightarrow> nat \<Rightarrow> ('v, 'w, 't, 'g) state
     \<Rightarrow> status \<times> ('v, 'w, 't, 'g) state" where
  "executor_call E fuel s =
     (let isLeader' = isLeader (threadPool E);
          couldAbort = (needsAborts (cfg E) \<and> 1 < activeThreads E)
      in if couldAbort \<and> isLeader' then go E True True fuel s
         else if couldAbort \<and> \<not> isLeader' then go E True False fuel s
         else if \<not> couldAbort \<and> isLeader' then go E False True fuel s
         else go E False False fuel s)"

text \<open>
  The constructor of \<^verbatim>\<open>ForEachExecutor\<close> (\<^verbatim>\<open>broke(false)\<close>, a fresh abort handler) and
  \<^verbatim>\<open>initThread\<close>.
\<close>

definition ForEachExecutor_init ::
  "('v, 'w, 't, 'g) executor \<Rightarrow> 'w \<Rightarrow> 't \<Rightarrow> 'g \<Rightarrow> ('v, 'w, 't, 'g) state" where
  "ForEachExecutor_init E w t g =
     \<lparr>pushBuffer = [], allocated = 0, fastPushBackSet = False, breakFlagSet = False,
      stat_conflicts = 0, stat_iterations = 0, stat_pushes = 0,
      aborted = AbortHandler_init (threadPool E), termDetect = t, wl = w, broke = False,
      world = g, trace = []\<rparr>"

definition initThread ::
  "('v, 'w, 't, 'g) executor \<Rightarrow> 'v list \<Rightarrow> ('v, 'w, 't, 'g) state \<Rightarrow> ('v, 'w, 't, 'g) state" where
  "initThread E items s =
     term_initializeThread E (s\<lparr>wl := wl_push_initial E items (wl s)\<rparr>)"

section \<open>Reading a trace\<close>

text \<open>
  The items the operator was applied to, in order; the number of applications of the
  operator; the number of iterations that were aborted (one \<^verbatim>\<open>cancelIteration\<close>
  each); and what a state's trace holds beyond an earlier state's.
\<close>

fun applied :: "'v event list \<Rightarrow> 'v list" where
  "applied [] = []"
| "applied (Apply v sg # es) = v # applied es"
| "applied (e # es) = applied es"

text \<open>The items the worklist gave, in the order of the calls of \<^verbatim>\<open>pop\<close>.\<close>

fun pops :: "'v event list \<Rightarrow> 'v list" where
  "pops [] = []"
| "pops (WlPop v # es) = v # pops es"
| "pops (e # es) = pops es"

definition n_applied :: "'v event list \<Rightarrow> nat" where
  "n_applied es = length (applied es)"

definition n_aborted :: "'v event list \<Rightarrow> nat" where
  "n_aborted es = length (filter (\<lambda>e. e = CancelIteration) es)"

definition n_thrown :: "'v event list \<Rightarrow> nat" where
  "n_thrown es = length (filter (\<lambda>e. case e of Apply v ConflictFlag \<Rightarrow> True | _ \<Rightarrow> False) es)"

definition n_committed :: "'v event list \<Rightarrow> nat" where
  "n_committed es = length (filter (\<lambda>e. case e of Apply v Returned \<Rightarrow> True | _ \<Rightarrow> False) es)"

text \<open>The entries of a trace that are calls of a queue loop.\<close>

fun is_call :: "'v event \<Rightarrow> bool" where
  "is_call (RunQueue q limit) = True"
| "is_call RunQueueSimple = True"
| "is_call e = False"

definition calls :: "'v event list \<Rightarrow> 'v event list" where
  "calls es = filter is_call es"

definition since ::
  "('v, 'w, 't, 'g) state \<Rightarrow> ('v, 'w, 't, 'g) state \<Rightarrow> 'v event list" where
  "since s s' = drop (length (trace s)) (trace s')"

section \<open>The protocol of the worker loop\<close>

text \<open>
  The order of the calls that decide whether a worker leaves \<^verbatim>\<open>go\<close>, written from the
  words of the specification. A pass enters queue loops, reports to the termination
  detector with \<^verbatim>\<open>localTermination\<close> and asks \<^verbatim>\<open>globalTermination()\<close>; a new pass follows
  at once only the answer false; the worklist's \<^verbatim>\<open>empty()\<close> is asked only after
  \<^verbatim>\<open>globalTermination()\<close>; only after the answer that the worklist is not empty the worker
  calls \<^verbatim>\<open>initializeThread\<close>, then \<^verbatim>\<open>barrier.wait\<close>, and only then a new pass starts.
  Calls of any other kind are passed over. \<open>Checked g e\<close> is the phase after
  \<^verbatim>\<open>globalTermination()\<close> answered \<open>g\<close> and \<^verbatim>\<open>checkEmpty\<close> answered \<open>e\<close>;
  \<open>protocol ph d\<close> is the phase that the calls \<open>d\<close> lead to from \<open>ph\<close>, if they keep
  to the order.
\<close>

datatype phase = Ready | InPass | Reported | Asked bool | Checked bool bool | Rearmed

fun protocol_step :: "phase \<Rightarrow> 'v event \<Rightarrow> phase option" where
  "protocol_step ph (RunQueue q n) =
     (if ph = Ready \<or> ph = InPass \<or> ph = Asked False then Some InPass else None)"
| "protocol_step ph RunQueueSimple =
     (if ph = Ready \<or> ph = InPass \<or> ph = Asked False then Some InPass else None)"
| "protocol_step ph (LocalTermination w) = (if ph = InPass then Some Reported else None)"
| "protocol_step ph (GlobalTermination g) = (if ph = Reported then Some (Asked g) else None)"
| "protocol_step ph (CheckEmpty e) = (case ph of Asked g \<Rightarrow> Some (Checked g e) | _ \<Rightarrow> None)"
| "protocol_step ph InitializeThread = (case ph of Checked g False \<Rightarrow> Some Rearmed | _ \<Rightarrow> None)"
| "protocol_step ph BarrierWait = (if ph = Rearmed then Some Ready else None)"
| "protocol_step ph e = Some ph"

fun protocol :: "phase \<Rightarrow> 'v event list \<Rightarrow> phase option" where
  "protocol ph [] = Some ph"
| "protocol ph (e # es) = (case protocol_step ph e of None \<Rightarrow> None | Some ph' \<Rightarrow> protocol ph' es)"

section \<open>The sequential loop\<close>

text \<open>
  The loop the single-threaded executor is compared with, written from the words of the
  specification: a sequential loop that pops an item, applies the operator to it and
  pushes the new items one by one, until the worklist gives nothing. It takes fuel as
  the executor's loops do, and it stops when the operator throws.
\<close>

fun sequential_loop ::
  "('v, 'w, 't, 'g) executor \<Rightarrow> nat \<Rightarrow> 'w \<Rightarrow> 'g \<Rightarrow> status \<times> 'w \<times> 'g" where
  "sequential_loop E 0 w g = (OutOfFuel, w, g)"
| "sequential_loop E (Suc fuel) w g =
     (case wl_pop E w of
        (None, w1) \<Rightarrow> (Finished, w1, g)
      | (Some v, w1) \<Rightarrow>
          (let r = origFunction E v g
           in if op_signal r = ConflictFlag then (UncaughtConflict, w1, op_world r)
              else sequential_loop E fuel
                     (if needsPush (cfg E) then fold (\<lambda>x. wl_push E [x]) (op_pushes r) w1 else w1)
                     (op_world r)))"

section \<open>Concrete instances\<close>

text \<open>
  A worklist that is a first-in-first-out list with \<^verbatim>\<open>empty()\<close>, and a termination
  detector for one thread: quiet after a pass that did no work.
\<close>

definition fifo_executor ::
  "config \<Rightarrow> (nat \<Rightarrow> 'g \<Rightarrow> (nat, 'g) op_result) \<Rightarrow> ThreadPool \<Rightarrow> cunsigned
     \<Rightarrow> (nat, nat list, bool, 'g) executor" where
  "fifo_executor c f tp n =
     \<lparr>cfg = c, origFunction = f, threadPool = tp, activeThreads = n, assertions = True,
      spill = (\<lambda>buffer. True),
      wl_pop = (\<lambda>w. case w of [] \<Rightarrow> (None, []) | x # xs \<Rightarrow> (Some x, xs)),
      wl_push = (\<lambda>xs w. w @ xs),
      wl_push_initial = (\<lambda>xs w. w @ xs),
      wl_empty = Some (\<lambda>w. w = []),
      localTermination = (\<lambda>didWork t. \<not> didWork),
      globalTermination = (\<lambda>t. t),
      initializeThread = (\<lambda>t. False),
      barrier_wait = (\<lambda>t. t)\<rparr>"

text \<open>An operator that adds the item to a sum and pushes \<open>x - 1\<close> while \<open>x > 0\<close>.\<close>

definition countdown :: "nat \<Rightarrow> nat \<Rightarrow> (nat, nat) op_result" where
  "countdown x g =
     \<lparr>op_signal = Returned, op_world = g + x,
      op_pushes = (if 0 < x then [x - 1] else []), op_allocs = 0, op_break = False\<rparr>"

text \<open>
  An operator on a log of committed items and a number of conflicts still to come:
  while that number is positive it stages a push, allocates and throws; afterwards it
  appends the item to the log and pushes nothing.
\<close>

definition flaky :: "nat \<Rightarrow> nat list \<times> nat \<Rightarrow> (nat, nat list \<times> nat) op_result" where
  "flaky x g =
     (case g of (done, k) \<Rightarrow>
        if 0 < k
        then \<lparr>op_signal = ConflictFlag, op_world = (done, k - 1),
              op_pushes = [x + 100], op_allocs = 8, op_break = False\<rparr>
        else \<lparr>op_signal = Returned, op_world = (done @ [x], 0),
              op_pushes = [], op_allocs = 0, op_break = False\<rparr>)"

definition all_flags :: config where
  "all_flags = \<lparr>needsStats = True, needsPush = True, needsAborts = True, needsPia = True,
                 needsBreak = False\<rparr>"

text \<open>
  Two threads on the two-package machine, every trait but break, the operator \<open>flaky\<close>
  with two conflicts to come, and the range 1, 2, 3.
\<close>

definition flaky_executor :: "(nat, nat list, bool, nat list \<times> nat) executor" where
  "flaky_executor = fifo_executor all_flags flaky tp_two_packages 2"

definition flaky_start :: "(nat, nat list, bool, nat list \<times> nat) state" where
  "flaky_start =
     initThread flaky_executor [1, 2, 3] (ForEachExecutor_init flaky_executor [] False ([], 2))"

text \<open>The same machine seen from thread 2, the leader of its package.\<close>

definition tp_leader :: ThreadPool where
  "tp_leader = tp_two_packages\<lparr>getTID := 2, isLeader := True\<rparr>"

text \<open>The operator \<open>flaky\<close> without conflicts on the leader, two threads.\<close>

definition leader_executor :: "(nat, nat list, bool, nat list \<times> nat) executor" where
  "leader_executor = fifo_executor all_flags flaky tp_leader 2"

definition leader_start :: "(nat, nat list, bool, nat list \<times> nat) state" where
  "leader_start =
     initThread leader_executor [1, 2, 3] (ForEachExecutor_init leader_executor [] False ([], 0))"

text \<open>One thread, with break enabled.\<close>

definition break_executor :: "(nat, nat list, bool, nat list \<times> nat) executor" where
  "break_executor = fifo_executor (all_flags\<lparr>needsBreak := True\<rparr>) flaky tp_two_packages 1"

definition break_start :: "(nat, nat list, bool, nat list \<times> nat) state" where
  "break_start =
     initThread break_executor [1, 2, 3] (ForEachExecutor_init break_executor [] False ([], 0))"

text \<open>The same, with one conflict to come.\<close>

definition spill_start :: "(nat, nat list, bool, nat list \<times> nat) state" where
  "spill_start =
     initThread break_executor [1, 2, 3] (ForEachExecutor_init break_executor [] False ([], 1))"

text \<open>One thread without break, and one conflict to come.\<close>

definition uncaught_executor :: "(nat, nat list, bool, nat list \<times> nat) executor" where
  "uncaught_executor = fifo_executor all_flags flaky tp_two_packages 1"

definition uncaught_start :: "(nat, nat list, bool, nat list \<times> nat) state" where
  "uncaught_start =
     initThread uncaught_executor [1, 2, 3] (ForEachExecutor_init uncaught_executor [] False ([], 1))"

text \<open>One thread, and the operator that pushes \<open>x - 1\<close> while \<open>x > 0\<close>, on the range 2.\<close>

definition single_executor :: "(nat, nat list, bool, nat) executor" where
  "single_executor = fifo_executor all_flags countdown tp_two_packages 1"

definition single_start :: "(nat, nat list, bool, nat) state" where
  "single_start = initThread single_executor [2] (ForEachExecutor_init single_executor [] False 0)"

text \<open>
  A worklist of chunks whose \<^verbatim>\<open>pop\<close> gives nothing at the end of each chunk, and a
  termination detector that always reports global termination: the worklist is not
  empty when the inner loop ends for the first time.
\<close>

definition chunk_executor :: "(nat, nat list list, unit, nat) executor" where
  "chunk_executor =
     \<lparr>cfg = \<lparr>needsStats = True, needsPush = False, needsAborts = False, needsPia = False,
              needsBreak = False\<rparr>,
      origFunction = (\<lambda>x g. \<lparr>op_signal = Returned, op_world = g + x, op_pushes = [],
                                op_allocs = 0, op_break = False\<rparr>),
      threadPool = tp_two_packages, activeThreads = 2, assertions = True,
      spill = (\<lambda>buffer. True),
      wl_pop = (\<lambda>w. case w of [] \<Rightarrow> (None, []) | [] # cs \<Rightarrow> (None, cs)
                        | (x # xs) # cs \<Rightarrow> (Some x, xs # cs)),
      wl_push = (\<lambda>xs w. w @ [xs]),
      wl_push_initial = (\<lambda>xs w. w @ [xs]),
      wl_empty = Some (\<lambda>w. concat w = []),
      localTermination = (\<lambda>didWork t. t),
      globalTermination = (\<lambda>t. True),
      initializeThread = (\<lambda>t. t),
      barrier_wait = (\<lambda>t. t)\<rparr>"

definition chunk_start :: "(nat, nat list list, unit, nat) state" where
  "chunk_start = (ForEachExecutor_init chunk_executor [[1], [2]] () 0)"

text \<open>
  A termination detector for two threads as the specification describes it, seen from
  the first one: a quiet flag for this thread and one for the other thread, global
  termination when both are quiet. The calls of this thread change its own flag only.
  The worklist is a first-in-first-out list.
\<close>

definition pair_executor :: "(nat, nat list, bool \<times> bool, nat) executor" where
  "pair_executor =
     \<lparr>cfg = \<lparr>needsStats = True, needsPush = False, needsAborts = False, needsPia = False,
              needsBreak = False\<rparr>,
      origFunction = (\<lambda>x g. \<lparr>op_signal = Returned, op_world = g + x, op_pushes = [],
                                op_allocs = 0, op_break = False\<rparr>),
      threadPool = tp_two_packages, activeThreads = 2, assertions = True,
      spill = (\<lambda>buffer. True),
      wl_pop = (\<lambda>w. case w of [] \<Rightarrow> (None, []) | x # xs \<Rightarrow> (Some x, xs)),
      wl_push = (\<lambda>xs w. w @ xs),
      wl_push_initial = (\<lambda>xs w. w @ xs),
      wl_empty = Some (\<lambda>w. w = []),
      localTermination = (\<lambda>didWork t. (\<not> didWork, snd t)),
      globalTermination = (\<lambda>t. fst t \<and> snd t),
      initializeThread = (\<lambda>t. (False, snd t)),
      barrier_wait = (\<lambda>t. t)\<rparr>"

text \<open>The first thread with one item, while the other thread is not quiet, and while it is.\<close>

definition pair_start :: "bool \<Rightarrow> (nat, nat list, bool \<times> bool, nat) state" where
  "pair_start other = ForEachExecutor_init pair_executor [5] (False, other) 0"

section \<open>Relations between the states of a run\<close>

text \<open>
  \<open>ran k j s s'\<close>: from \<open>s\<close> to \<open>s'\<close> the operator was applied \<open>k\<close> times and threw
  \<open>j\<close> times, no iteration was aborted, no queue loop was entered, and the counters
  moved accordingly. \<open>balanced d\<close>: at every point of the
  trace \<open>d\<close>, no more iterations were aborted than were started. \<open>counts s s'\<close>: from
  \<open>s\<close> to \<open>s'\<close> the two counters moved by the numbers of applications and of aborted
  iterations of a balanced trace.
\<close>

definition ran ::
  "nat \<Rightarrow> nat \<Rightarrow> ('v, 'w, 't, 'g) state \<Rightarrow> ('v, 'w, 't, 'g) state \<Rightarrow> bool" where
  "ran k j s s' \<longleftrightarrow>
     (\<exists>d. trace s' = trace s @ d \<and> CancelIteration \<notin> set d \<and> n_applied d = k
        \<and> n_thrown d = j \<and> calls d = [])
     \<and> stat_iterations s' = stat_iterations s + of_nat k
     \<and> stat_conflicts s' = stat_conflicts s
     \<and> fastPushBackSet s' = fastPushBackSet s"

definition balanced :: "'v event list \<Rightarrow> bool" where
  "balanced d \<longleftrightarrow> (\<forall>k. n_aborted (take k d) \<le> n_applied (take k d))"

definition counts :: "('v, 'w, 't, 'g) state \<Rightarrow> ('v, 'w, 't, 'g) state \<Rightarrow> bool" where
  "counts s s' \<longleftrightarrow>
     (\<exists>d. trace s' = trace s @ d \<and> balanced d
        \<and> stat_iterations s' = stat_iterations s + of_nat (n_applied d)
        \<and> stat_conflicts s' = stat_conflicts s + of_nat (n_aborted d))
     \<and> fastPushBackSet s' = fastPushBackSet s"

text \<open>The iterations a status leaves neither committed nor aborted.\<close>

fun pending :: "status \<Rightarrow> nat" where
  "pending UncaughtConflict = 1"
| "pending AssertionFailed = 1"
| "pending st = 0"

fun loop_state :: "('v, 's) loop_result \<Rightarrow> 's" where
  "loop_state (Drained s) = s"
| "loop_state (Thrown p s) = s"
| "loop_state (Exhausted s) = s"

fun is_Thrown :: "('v, 's) loop_result \<Rightarrow> bool" where
  "is_Thrown (Thrown p s) = True"
| "is_Thrown _ = False"

definition go_setup :: "('v, 'w, 't, 'g) executor \<Rightarrow> bool \<Rightarrow> ('v, 'w, 't, 'g) state \<Rightarrow> ('v, 'w, 't, 'g) state" where
  "go_setup E ca s =
     (let s0 = ThreadLocalData_init s;
          s1 = (if needsBreak (cfg E) then setBreakFlag s0 else s0);
          s2 = (if ca then emit (SetThreadContext True) s1 else s1)
      in if needsPush (cfg E) \<and> \<not> ca then setFastPushBack s2 else s2)"

definition go_teardown :: "('v, 'w, 't, 'g) executor \<Rightarrow> bool \<Rightarrow> ('v, 'w, 't, 'g) state \<Rightarrow> ('v, 'w, 't, 'g) state" where
  "go_teardown E ca s = ThreadLocalData_destroy E (if ca then emit (SetThreadContext False) s else s)"

text \<open>How \<^verbatim>\<open>go\<close> is left in a state of the outer loop, by the status of that loop.\<close>

definition go_finish ::
  "('v, 'w, 't, 'g) executor \<Rightarrow> bool \<Rightarrow> status \<Rightarrow> ('v, 'w, 't, 'g) state \<Rightarrow> ('v, 'w, 't, 'g) state" where
  "go_finish E ca st s =
     (if st = Finished then go_teardown E ca s
      else if st = UncaughtConflict then ThreadLocalData_destroy E s
      else s)"

definition reports :: "('v, 'w, 't, 'g) state \<Rightarrow> 'v event list" where
  "reports s =
     [ReportStat ''Conflicts'' (stat_conflicts s),
      ReportStat ''Commits'' (stat_iterations s - stat_conflicts s),
      ReportStat ''Pushes'' (stat_pushes s),
      ReportStat ''Iterations'' (stat_iterations s)]"

text \<open>
  The end of one turn of the inner and of the outer loop of \<^verbatim>\<open>go\<close>, and the steps of
  \<^verbatim>\<open>go\<close> that only call the termination detector and the barrier.
\<close>

definition inner_tail ::
  "('v, 'w, 't, 'g) executor \<Rightarrow> ulong \<Rightarrow> ('v, 'w, 't, 'g) state \<Rightarrow> ('v, 'w, 't, 'g) state" where
  "inner_tail E old s1 =
     (let s2 = term_localTermination E (old \<noteq> stat_iterations s1) s1
      in emit (GlobalTermination (globalTermination E (termDetect s2))) s2)"

definition outer_tail ::
  "('v, 'w, 't, 'g) executor \<Rightarrow> ('v, 'w, 't, 'g) state \<Rightarrow> ('v, 'w, 't, 'g) state" where
  "outer_tail E s1 = barrier_wait_call E (term_initializeThread E (emit (CheckEmpty False) s1))"

fun is_ctl :: "'v event \<Rightarrow> bool" where
  "is_ctl (LocalTermination b) = True"
| "is_ctl (GlobalTermination b) = True"
| "is_ctl (CheckEmpty b) = True"
| "is_ctl InitializeThread = True"
| "is_ctl BarrierWait = True"
| "is_ctl e = False"

definition bookkeeping :: "('v, 'w, 't, 'g) state \<Rightarrow> ('v, 'w, 't, 'g) state \<Rightarrow> bool" where
  "bookkeeping s s' \<longleftrightarrow>
     (\<exists>es t. s' = s\<lparr>termDetect := t, trace := trace s @ es\<rparr> \<and> (\<forall>e \<in> set es. is_ctl e))"

text \<open>
  The queue loops an instance of \<^verbatim>\<open>go\<close> may enter. \<open>tidy A st s s'\<close>: from \<open>s\<close> to
  \<open>s'\<close> every operator call that threw was followed by an abort, but for the last one
  when the status says so, and only loops in \<open>A\<close> were entered.
\<close>

definition allowed_calls :: "('v, 'w, 't, 'g) executor \<Rightarrow> bool \<Rightarrow> bool \<Rightarrow> 'v event set" where
  "allowed_calls E ca il =
     (if ca \<or> needsBreak (cfg E)
      then insert (RunQueue SharedWL (if needsBreak (cfg E) \<or> il then 64 else 0))
             (if ca then {RunQueue AbortedQ 0} else {})
      else {RunQueueSimple})"

definition tidy ::
  "'v event set \<Rightarrow> status \<Rightarrow> ('v, 'w, 't, 'g) state \<Rightarrow> ('v, 'w, 't, 'g) state \<Rightarrow> bool" where
  "tidy A st s s' \<longleftrightarrow>
     (\<exists>d. trace s' = trace s @ d \<and> n_thrown d = n_aborted d + pending st \<and> set (calls d) \<subseteq> A)"

text \<open>A relation that the two loops of \<^verbatim>\<open>go\<close> preserve, turn by turn.\<close>

definition liftable ::
  "(status \<Rightarrow> ('v, 'w, 't, 'g) state \<Rightarrow> ('v, 'w, 't, 'g) state \<Rightarrow> bool)
     \<Rightarrow> ('v, 'w, 't, 'g) executor \<Rightarrow> bool \<Rightarrow> bool \<Rightarrow> nat \<Rightarrow> bool" where
  "liftable R E ca il b \<longleftrightarrow>
     (\<forall>s. R OutOfFuel s s)
     \<and> (\<forall>st s s1 s2. R Finished s s1 \<longrightarrow> R st s1 s2 \<longrightarrow> R st s s2)
     \<and> (\<forall>st s s'. runSomeIterations E ca il b s = (st, s') \<longrightarrow> R st s s')
     \<and> (\<forall>s s'. bookkeeping s s' \<longrightarrow> R Finished s s')"

text \<open>
  Pushing items one by one, and the worklist as it will be once the push buffer has
  been flushed. The two properties of a worklist that the comparison with the sequential
  loop relies on: a bulk push is a loop of pushes, and a \<^verbatim>\<open>pop\<close> that gave nothing
  leaves a worklist that gives nothing again. \<open>staging_ok\<close>: between iterations the
  push buffer is empty when pushes are enabled, and no callback spills it when they are
  not. \<open>idle\<close>: on a worklist that gives nothing, worklist and data stay as they are.
\<close>

definition push_each :: "('v, 'w, 't, 'g) executor \<Rightarrow> 'v list \<Rightarrow> 'w \<Rightarrow> 'w" where
  "push_each E xs w = fold (\<lambda>x. wl_push E [x]) xs w"

definition vwl :: "('v, 'w, 't, 'g) executor \<Rightarrow> ('v, 'w, 't, 'g) state \<Rightarrow> 'w" where
  "vwl E s = push_each E (pushBuffer s) (wl s)"

definition bulk_push_is_loop :: "('v, 'w, 't, 'g) executor \<Rightarrow> bool" where
  "bulk_push_is_loop E \<longleftrightarrow> (\<forall>xs ys w. wl_push E (xs @ ys) w = wl_push E ys (wl_push E xs w))"

definition drained_stays :: "('v, 'w, 't, 'g) executor \<Rightarrow> bool" where
  "drained_stays E \<longleftrightarrow> (\<forall>w w'. wl_pop E w = (None, w') \<longrightarrow> wl_pop E w' = (None, w'))"

definition staging_ok :: "('v, 'w, 't, 'g) executor \<Rightarrow> ('v, 'w, 't, 'g) state \<Rightarrow> bool" where
  "staging_ok E s \<longleftrightarrow>
     (needsPush (cfg E) \<longrightarrow> pushBuffer s = []) \<and> (\<not> needsPush (cfg E) \<longrightarrow> \<not> fastPushBackSet s)"

definition idle ::
  "('v, 'w, 't, 'g) executor \<Rightarrow> status \<Rightarrow> ('v, 'w, 't, 'g) state \<Rightarrow> ('v, 'w, 't, 'g) state \<Rightarrow> bool" where
  "idle E st s s' \<longleftrightarrow> (wl_pop E (wl s) = (None, wl s) \<longrightarrow> wl s' = wl s \<and> world s' = world s)"

definition no_cancel ::
  "status \<Rightarrow> ('v, 'w, 't, 'g) state \<Rightarrow> ('v, 'w, 't, 'g) state \<Rightarrow> bool" where
  "no_cancel st s s' \<longleftrightarrow> (\<exists>d. trace s' = trace s @ d \<and> CancelIteration \<notin> set d)"

text \<open>
  The operator applied to a list of items one after another; a step after which the
  operator has been applied to exactly the items that were popped, in the order they
  were popped, the data being those the applications leave; and a step that pops
  nothing, applies nothing and leaves the data alone.
\<close>

definition apply_in_order :: "('v, 'w, 't, 'g) executor \<Rightarrow> 'g \<Rightarrow> 'v list \<Rightarrow> 'g" where
  "apply_in_order E g vs = foldl (\<lambda>g v. op_world (origFunction E v g)) g vs"

definition in_order ::
  "('v, 'w, 't, 'g) executor \<Rightarrow> status \<Rightarrow> ('v, 'w, 't, 'g) state \<Rightarrow> ('v, 'w, 't, 'g) state \<Rightarrow> bool" where
  "in_order E st s s' \<longleftrightarrow>
     (\<exists>d. trace s' = trace s @ d \<and> pops d = applied d
        \<and> world s' = apply_in_order E (world s) (applied d))"

definition silent :: "('v, 'w, 't, 'g) state \<Rightarrow> ('v, 'w, 't, 'g) state \<Rightarrow> bool" where
  "silent s s' \<longleftrightarrow>
     (\<exists>d. trace s' = trace s @ d \<and> pops d = [] \<and> applied d = []) \<and> world s' = world s"

text \<open>
  The calls that the protocol of the worker loop passes over; a step that makes only
  such calls and leaves the termination detector alone; the phases from which a pass
  may start; and a step that starts a pass, stays in it and leaves the termination
  detector alone.
\<close>

definition is_body :: "'v event \<Rightarrow> bool" where
  "is_body e \<longleftrightarrow> \<not> is_call e \<and> \<not> is_ctl e"

definition body_only :: "('v, 'w, 't, 'g) state \<Rightarrow> ('v, 'w, 't, 'g) state \<Rightarrow> bool" where
  "body_only s s' \<longleftrightarrow>
     (\<exists>d. trace s' = trace s @ d \<and> (\<forall>e \<in> set d. is_body e)) \<and> termDetect s' = termDetect s"

definition enters :: "phase \<Rightarrow> bool" where
  "enters ph \<longleftrightarrow> ph = Ready \<or> ph = InPass \<or> ph = Asked False"

definition passes :: "('v, 'w, 't, 'g) state \<Rightarrow> ('v, 'w, 't, 'g) state \<Rightarrow> bool" where
  "passes s s' \<longleftrightarrow>
     (\<exists>d. trace s' = trace s @ d \<and> (\<forall>ph. enters ph \<longrightarrow> protocol ph d = Some InPass))
     \<and> termDetect s' = termDetect s"

section \<open>Properties of the abort handler\<close>

lemma queues_queue_push:
  "queues (queue_push t item ah) = (queues ah)(t := queues ah t @ [item])"
  by (simp add: queue_push_def)

lemma useBasicPolicy_queue_push [simp]:
  "useBasicPolicy (queue_push t item ah) = useBasicPolicy ah"
  by (simp add: queue_push_def)

lemma basicPolicy_eq: "basicPolicy tp item ah = queue_push (basicTarget tp) item ah"
  by (simp add: basicPolicy_def basicTarget_def)

lemma doublePolicy_eq:
  "doublePolicy tp item ah = queue_push (doubleTarget tp (retries item - 1)) item ah"
  by (simp add: doublePolicy_def doubleTarget_def Let_def)

lemma push_Item_eq:
  "push_Item tp item ah =
     queue_push (if useBasicPolicy ah then basicTarget tp else doubleTarget tp (retries item))
       \<lparr>val = val item, retries = retries item + 1\<rparr> ah"
  by (simp add: push_Item_def basicPolicy_eq doublePolicy_eq)

lemma sint_incr:
  assumes "sint (r::cint) < 2147483647"
  shows "sint (r + 1) = sint r + 1"
proof -
  have lo: "- (2 ^ 31) \<le> sint r" using sint_ge [of r] by simp
  have "sint (r + 1) = signed_take_bit 31 (sint r + 1)"
    by (simp add: sint_word_add)
  also have "\<dots> = sint r + 1"
    using assms lo by (intro signed_take_bit_int_eq_self) simp_all
  finally show ?thesis .
qed

lemma push_useBasicPolicy: "useBasicPolicy (push tp p ah) = useBasicPolicy ah"
  by (cases p) (simp_all add: push_value_def push_Item_eq)

text \<open>
  C5, as the code has it. The escalation policy is chosen once, by the constructor,
  from the number of packages the thread pool reports, and no push changes the choice:
  the basic policy (the record goes to the leader of package \<open>p div 2\<close>, \<open>p\<close> the
  package of the pushing thread) is selected when there are more than 2 packages, the
  double policy when there are at most 2. Under the double policy a record whose
  retry count before the push is odd goes to the local queue; otherwise it goes
  half-way toward the leader of the thread's package, and from the leader itself to
  the leader of package \<open>p div 2\<close>.
\<close>

theorem AbortHandler_policy_selection:
  "useBasicPolicy (AbortHandler_init tp) = (2 < getMaxPackages tp)
   \<and> useBasicPolicy (push tp p ah) = useBasicPolicy ah
   \<and> (useBasicPolicy ah \<longrightarrow>
        push_Item tp item ah =
          queue_push (getLeaderForPackage tp (getPackage tp div 2))
            \<lparr>val = val item, retries = retries item + 1\<rparr> ah)
   \<and> (\<not> useBasicPolicy ah \<longrightarrow>
        push_Item tp item ah =
          queue_push
            (if retries item AND 1 = 1 then getTID tp
             else if getTID tp \<noteq> getLeader tp
               then getLeader tp + (getTID tp - getLeader tp) div 2
               else getLeaderForPackage tp (getPackage tp div 2))
            \<lparr>val = val item, retries = retries item + 1\<rparr> ah)"
  by (simp add: AbortHandler_init_def push_useBasicPolicy push_Item_eq basicTarget_def
      doubleTarget_def)

theorem AbortHandler_policy_selection_witness:
  "useBasicPolicy (AbortHandler_init tp_four_packages :: nat AbortHandler)
   \<and> push_Item tp_four_packages \<lparr>val = 7 :: nat, retries = 1\<rparr> (AbortHandler_init tp_four_packages)
       = queue_push 2 \<lparr>val = 7, retries = 2\<rparr> (AbortHandler_init tp_four_packages)
   \<and> \<not> useBasicPolicy (AbortHandler_init tp_two_packages :: nat AbortHandler)
   \<and> push_Item tp_two_packages \<lparr>val = 7 :: nat, retries = 1\<rparr> (AbortHandler_init tp_two_packages)
       = queue_push 3 \<lparr>val = 7, retries = 2\<rparr> (AbortHandler_init tp_two_packages)"
  using AbortHandler_policy_selection
          [of tp_four_packages "Val 0" "AbortHandler_init tp_four_packages" "\<lparr>val = 7 :: nat, retries = 1\<rparr>"]
        AbortHandler_policy_selection
          [of tp_two_packages "Val 0" "AbortHandler_init tp_two_packages" "\<lparr>val = 7 :: nat, retries = 1\<rparr>"]
  by (simp add: tp_four_packages_def tp_two_packages_def AbortHandler_init_def)

text \<open>
  C5, as the claim states it, fails. On the machine with two packages the claim selects
  the basic policy, and the handler selects the double one: a record with retry count 2
  pushed from thread 3 does not reach the leader of package 0. On the machine with four
  packages the claim selects the double policy, and the handler selects the basic one:
  a record with retry count 1 pushed from thread 5 does not stay in the local queue.
\<close>

theorem AbortHandler_policy_counterexample:
  "getMaxPackages tp_two_packages \<le> 2
   \<and> \<not> useBasicPolicy (AbortHandler_init tp_two_packages :: nat AbortHandler)
   \<and> queues (push_Item tp_two_packages \<lparr>val = 7 :: nat, retries = 2\<rparr> (AbortHandler_init tp_two_packages))
        (getLeaderForPackage tp_two_packages (getPackage tp_two_packages div 2)) = []
   \<and> 2 < getMaxPackages tp_four_packages
   \<and> useBasicPolicy (AbortHandler_init tp_four_packages :: nat AbortHandler)
   \<and> queues (push_Item tp_four_packages \<lparr>val = 7 :: nat, retries = 1\<rparr> (AbortHandler_init tp_four_packages))
        (getTID tp_four_packages) = []"
  by (simp add: AbortHandler_init_def push_Item_def basicPolicy_def doublePolicy_def
      queue_push_def tp_two_packages_def tp_four_packages_def)

text \<open>
  C8. A push of an already-aborted record (the overload of \<^verbatim>\<open>push\<close> for \<^verbatim>\<open>Item\<close>)
  appends exactly one record to exactly one queue of the handler and leaves every other
  record where it was: the new record holds the same value, and its retry count is the
  old one plus one, so the count has not decreased. The increment is an \<^verbatim>\<open>int\<close>
  addition, defined as long as the old count is below \<^verbatim>\<open>INT_MAX\<close>. The record that an
  abort pushes again is one the handler held: it was popped, as it was, from the head of
  the calling thread's queue, and the abort appends its successor to a queue.
\<close>

theorem retries_increase:
  assumes "sint (retries item) < 2147483647"
  shows "(\<exists>t. queues (push tp (Itm item) ah)
               = (queues ah)(t := queues ah t @ [\<lparr>val = val item, retries = retries item + 1\<rparr>]))
         \<and> sint (retries item + 1) = sint (retries item) + 1
         \<and> sint (retries item) < sint (retries item + 1)
         \<and> (pop E AbortedQ s = (Some p, s1) \<longrightarrow>
              (\<exists>i. p = Itm i
                 \<and> queues (aborted s) (getTID (threadPool E))
                     = i # queues (aborted s1) (getTID (threadPool E))))
         \<and> (abortIteration E (Itm item) s = (Finished, s') \<longrightarrow>
              (\<exists>t. queues (aborted s')
                 = (queues (aborted s))
                     (t := queues (aborted s) t @ [\<lparr>val = val item, retries = retries item + 1\<rparr>])))"
proof -
  have 1: "\<exists>t. queues (push tp (Itm item) ah)
               = (queues ah)(t := queues ah t @ [\<lparr>val = val item, retries = retries item + 1\<rparr>])"
    by (auto simp: push_Item_def basicPolicy_def doublePolicy_def queue_push_def Let_def)
  have 2: "sint (retries item + 1) = sint (retries item) + 1" using assms by (rule sint_incr)
  have 4: "pop E AbortedQ s = (Some p, s1) \<longrightarrow>
              (\<exists>i. p = Itm i
                 \<and> queues (aborted s) (getTID (threadPool E))
                     = i # queues (aborted s1) (getTID (threadPool E)))"
    by (auto simp: pop_def queue_pop_def getQueue_def split: list.splits)
  have 5: "abortIteration E (Itm item) s = (Finished, s') \<longrightarrow>
              (\<exists>t. queues (aborted s')
                 = (queues (aborted s))
                     (t := queues (aborted s) t @ [\<lparr>val = val item, retries = retries item + 1\<rparr>]))"
    by (auto simp: abortIteration_def Let_def emit_def resetPushBuffer_def resetAlloc_def
        push_Item_def basicPolicy_def doublePolicy_def queue_push_def split: if_splits)
  show ?thesis using 1 2 4 5 by simp
qed

theorem retries_increase_witness:
  "sint (retries \<lparr>val = 7 :: nat, retries = 1\<rparr>) < 2147483647
   \<and> (\<exists>t. queues (push tp_two_packages (Itm \<lparr>val = 7 :: nat, retries = 1\<rparr>)
                      (AbortHandler_init tp_two_packages))
              = (\<lambda>u. [])(t := [\<lparr>val = 7, retries = 2\<rparr>]))
   \<and> queues (push tp_two_packages (Itm \<lparr>val = 7 :: nat, retries = 1\<rparr>)
               (AbortHandler_init tp_two_packages)) 3
       = [\<lparr>val = 7, retries = 2\<rparr>]
   \<and> sint (2 :: cint) = sint (1 :: cint) + 1"
proof -
  have h: "sint (retries \<lparr>val = 7 :: nat, retries = 1\<rparr>) < 2147483647" by simp
  note T = retries_increase [OF h, of tp_two_packages "AbortHandler_init tp_two_packages"]
  have e: "\<exists>t. queues (push tp_two_packages (Itm \<lparr>val = 7 :: nat, retries = 1\<rparr>)
                      (AbortHandler_init tp_two_packages))
              = (\<lambda>u. [])(t := [\<lparr>val = 7, retries = 2\<rparr>])"
    using T [THEN conjunct1] by (simp add: AbortHandler_init_def)
  have i: "sint (2 :: cint) = sint (1 :: cint) + 1"
    using T [THEN conjunct2, THEN conjunct1] by simp
  have q: "queues (push tp_two_packages (Itm \<lparr>val = 7 :: nat, retries = 1\<rparr>)
               (AbortHandler_init tp_two_packages)) 3 = [\<lparr>val = 7, retries = 2\<rparr>]"
    by (simp add: push_Item_def doublePolicy_def queue_push_def AbortHandler_init_def
        tp_two_packages_def)
  show ?thesis using h e i q by blast
qed

section \<open>Counting iterations along a run\<close>

named_theorems prim

lemmas [prim] = emit_def fastPushBack_def user_push_def breakLoop_def resetPushBuffer_def
  resetAlloc_def setBreakFlag_def setFastPushBack_def term_localTermination_def
  term_initializeThread_def barrier_wait_call_def

lemma applied_append [simp]: "applied (a @ b) = applied a @ applied b"
  by (induction a rule: applied.induct) simp_all

lemma n_applied_simps [simp]:
  "n_applied [] = 0"
  "n_applied (a @ b) = n_applied a + n_applied b"
  "n_applied (Apply v sg # es) = Suc (n_applied es)"
  by (simp_all add: n_applied_def)

lemma n_applied_Cons_other:
  "\<forall>v sg. e \<noteq> Apply v sg \<Longrightarrow> n_applied (e # es) = n_applied es"
  by (cases e) (simp_all add: n_applied_def)

lemma n_aborted_simps [simp]:
  "n_aborted [] = 0"
  "n_aborted (a @ b) = n_aborted a + n_aborted b"
  "n_aborted (e # es) = (if e = CancelIteration then Suc (n_aborted es) else n_aborted es)"
  by (simp_all add: n_aborted_def)

lemma n_aborted_0: "CancelIteration \<notin> set d \<Longrightarrow> n_aborted d = 0"
  by (induction d) auto

lemma n_aborted_take_le: "n_aborted (take k d) \<le> n_aborted d"
  by (metis append_take_drop_id le_add1 n_aborted_simps(2))

lemma balanced_no_cancel: "CancelIteration \<notin> set d \<Longrightarrow> balanced d"
  unfolding balanced_def
proof
  fix k assume "CancelIteration \<notin> set d"
  then have "CancelIteration \<notin> set (take k d)" by (meson in_set_takeD)
  then show "n_aborted (take k d) \<le> n_applied (take k d)" by (simp add: n_aborted_0)
qed

lemma balanced_total: "balanced d \<Longrightarrow> n_aborted d \<le> n_applied d"
  unfolding balanced_def by (metis order_refl take_all)

lemma balanced_append_gen:
  assumes "balanced a" and "\<And>j. n_aborted a + n_aborted (take j b) \<le> n_applied a + n_applied (take j b)"
  shows "balanced (a @ b)"
  unfolding balanced_def
proof
  fix k
  show "n_aborted (take k (a @ b)) \<le> n_applied (take k (a @ b))"
  proof (cases "k \<le> length a")
    case True
    then show ?thesis using assms(1) by (simp add: balanced_def)
  next
    case False
    then have "take k (a @ b) = a @ take (k - length a) b" by simp
    then show ?thesis using assms(2) [of "k - length a"] by simp
  qed
qed

lemma balanced_append:
  assumes "balanced a" "balanced b"
  shows "balanced (a @ b)"
proof (rule balanced_append_gen)
  show "balanced a" by fact
  fix j
  have "n_aborted (take j b) \<le> n_applied (take j b)" using assms(2) by (simp add: balanced_def)
  then show "n_aborted a + n_aborted (take j b) \<le> n_applied a + n_applied (take j b)"
    using balanced_total [OF assms(1)] by simp
qed

lemma balanced_abort:
  assumes "CancelIteration \<notin> set a" "1 \<le> n_applied a" "n_aborted b \<le> 1"
  shows "balanced (a @ b)"
proof (rule balanced_append_gen)
  show "balanced a" using assms(1) by (rule balanced_no_cancel)
  fix j
  have "n_aborted (take j b) \<le> 1" using n_aborted_take_le [of j b] assms(3) by simp
  then show "n_aborted a + n_aborted (take j b) \<le> n_applied a + n_applied (take j b)"
    using assms(1,2) by (simp add: n_aborted_0)
qed

lemma n_applied_Cons [simp]:
  "n_applied (e # es) = (case e of Apply v sg \<Rightarrow> Suc (n_applied es) | _ \<Rightarrow> n_applied es)"
  by (cases e) (simp_all add: n_applied_def)

lemma n_thrown_simps [simp]:
  "n_thrown [] = 0"
  "n_thrown (a @ b) = n_thrown a + n_thrown b"
  "n_thrown (e # es) =
     (case e of Apply v ConflictFlag \<Rightarrow> Suc (n_thrown es) | _ \<Rightarrow> n_thrown es)"
  by (simp_all add: n_thrown_def split: event.splits signal.splits)

lemma calls_simps [simp]:
  "calls [] = []"
  "calls (a @ b) = calls a @ calls b"
  "calls (e # es) = (if is_call e then e # calls es else calls es)"
  by (simp_all add: calls_def)

lemma ran_refl: "ran 0 0 s s"
  by (simp add: ran_def)

lemma ran_trans: "ran k j s s1 \<Longrightarrow> ran k' j' s1 s2 \<Longrightarrow> ran (k + k') (j + j') s s2"
  by (auto simp: ran_def)

lemma ran_trans0: "ran 0 0 s s1 \<Longrightarrow> ran k j s1 s2 \<Longrightarrow> ran k j s s2"
  using ran_trans [of 0 0 s s1 k j s2] by simp

lemma ran_trans0': "ran k j s s1 \<Longrightarrow> ran 0 0 s1 s2 \<Longrightarrow> ran k j s s2"
  using ran_trans [of k j s s1 0 0 s2] by simp

lemma ran_user_push: "ran 0 0 s (user_push E v s)"
  by (simp add: ran_def prim Let_def)

lemma ran_fold_user_push: "ran 0 0 s (fold (user_push E) xs s)"
proof (induction xs arbitrary: s)
  case Nil
  show ?case by (simp add: ran_refl)
next
  case (Cons x xs)
  show ?case using ran_trans0 [OF ran_user_push Cons.IH] by simp
qed

lemma ran_call_function:
  assumes "call_function E v s = (sg, s')"
  shows "ran 0 0 (emit (Apply v sg) s) s'"
proof -
  define r where "r = origFunction E v (world s)"
  define s2 where "s2 = (emit (Apply v (op_signal r)) s)\<lparr>world := op_world r\<rparr>"
  define s3 where "s3 = fold (user_push E) (op_pushes r) s2"
  have sg: "sg = op_signal r" using assms by (auto simp: call_function_def Let_def r_def)
  have a: "ran 0 0 (emit (Apply v sg) s) s2" by (simp add: s2_def sg ran_def prim)
  have b: "ran 0 0 s2 s3" unfolding s3_def by (rule ran_fold_user_push)
  define s4 where "s4 = s3\<lparr>allocated := allocated s3 + op_allocs r\<rparr>"
  have c: "ran 0 0 s3 s4" by (simp add: s4_def ran_def)
  have d: "ran 0 0 s4 (if op_break r then breakLoop s4 else s4)" by (simp add: ran_def prim)
  have "s' = (if op_break r then breakLoop s4 else s4)"
    using assms unfolding call_function_def Let_def r_def s2_def s3_def s4_def by simp
  then show ?thesis using ran_trans0 [OF ran_trans0 [OF ran_trans0 [OF a b] c] d] by simp
qed

lemma ran_commitIteration: "ran 0 0 s (commitIteration E s)"
  by (simp add: commitIteration_def ran_def prim Let_def)

lemma ran_doProcess:
  assumes "doProcess E v s = (sg, s')"
  shows "ran 1 (if sg = ConflictFlag then 1 else 0) s s'"
proof -
  define s1 where "s1 = (if needsAborts (cfg E) then emit StartIteration s else s)"
  define s2 where "s2 = s1\<lparr>stat_iterations := stat_iterations s1 + 1\<rparr>"
  obtain sg3 s3 where cf: "call_function E v s2 = (sg3, s3)" by (cases "call_function E v s2")
  have sg: "sg = sg3" using assms cf
    by (cases sg3) (auto simp: doProcess_def Let_def s2_def s1_def)
  have a: "ran 1 (if sg = ConflictFlag then 1 else 0) s (emit (Apply v sg3) s2)"
    by (cases sg3) (simp_all add: sg s2_def s1_def ran_def prim)
  have b: "ran 0 0 (emit (Apply v sg3) s2) s3" using cf by (rule ran_call_function)
  have c: "ran 0 0 s3 s'" using assms cf ran_commitIteration [of s3 E]
    by (cases sg3) (auto simp: doProcess_def Let_def s2_def s1_def ran_refl)
  show ?thesis using ran_trans0' [OF ran_trans0' [OF a b] c] .
qed

lemma ran_pop: "pop E q s = (p, s') \<Longrightarrow> ran 0 0 s s'"
  by (cases q) (auto simp: pop_def ran_def emit_def split: prod.splits option.splits)

lemma ran_runQueue_loop:
  "\<exists>k. ran k (if is_Thrown (runQueue_loop E q limit fuel num s) then 1 else 0) s
         (loop_state (runQueue_loop E q limit fuel num s))
       \<and> (is_Thrown (runQueue_loop E q limit fuel num s) \<longrightarrow> 1 \<le> k)
       \<and> (limit \<noteq> 0 \<longrightarrow> k \<le> limit - num)"
proof (induction fuel arbitrary: num s)
  case 0
  show ?case using ran_refl by (intro exI [of _ 0]) simp
next
  case (Suc fuel)
  show ?case
  proof (cases "limit \<noteq> 0 \<and> \<not> num < limit")
    case True
    then show ?thesis using ran_refl by (intro exI [of _ 0]) simp
  next
    case False
    obtain p s1 where pp: "pop E q s = (p, s1)" by (cases "pop E q s")
    have r0: "ran 0 0 s s1" using pp by (rule ran_pop)
    show ?thesis
    proof (cases p)
      case None
      have "runQueue_loop E q limit (Suc fuel) num s = Drained s1"
        using False pp None by (auto simp: Let_def)
      then show ?thesis using r0 by (intro exI [of _ 0]) simp
    next
      case (Some x)
      obtain sg s2 where dp: "doProcess E (value_of x) s1 = (sg, s2)"
        by (cases "doProcess E (value_of x) s1")
      have r1: "ran 1 (if sg = ConflictFlag then 1 else 0) s s2"
        using ran_trans0 [OF r0 ran_doProcess [OF dp]] .
      show ?thesis
      proof (cases sg)
        case ConflictFlag
        have "runQueue_loop E q limit (Suc fuel) num s = Thrown x s2"
          using False pp Some dp ConflictFlag by (auto simp: Let_def)
        then show ?thesis using r1 ConflictFlag False by (intro exI [of _ 1]) auto
      next
        case Returned
        let ?n = "if limit \<noteq> 0 then num + 1 else num"
        from Suc.IH [where num = ?n and s = s2] obtain k where
          k: "ran k (if is_Thrown (runQueue_loop E q limit fuel ?n s2) then 1 else 0) s2
                (loop_state (runQueue_loop E q limit fuel ?n s2))"
             "is_Thrown (runQueue_loop E q limit fuel ?n s2) \<longrightarrow> 1 \<le> k"
             "limit \<noteq> 0 \<longrightarrow> k \<le> limit - ?n" by blast
        have eq: "runQueue_loop E q limit (Suc fuel) num s = runQueue_loop E q limit fuel ?n s2"
          using False pp Some dp Returned by (auto simp: Let_def)
        show ?thesis using ran_trans [OF r1 k(1)] k(2,3) Returned False unfolding eq
          by (intro exI [of _ "1 + k"]) auto
      qed
    qed
  qed
qed

lemma ran_counts: "ran k j s s' \<Longrightarrow> counts s s'"
  by (auto simp: ran_def counts_def n_aborted_0 balanced_no_cancel)

lemma counts_refl: "counts s s"
  by (rule ran_counts [OF ran_refl])

lemma counts_trans:
  assumes "counts s s1" "counts s1 s2"
  shows "counts s s2"
proof -
  from assms(1) obtain a where a: "trace s1 = trace s @ a" "balanced a"
    "stat_iterations s1 = stat_iterations s + of_nat (n_applied a)"
    "stat_conflicts s1 = stat_conflicts s + of_nat (n_aborted a)"
    "fastPushBackSet s1 = fastPushBackSet s" by (auto simp: counts_def)
  from assms(2) obtain b where b: "trace s2 = trace s1 @ b" "balanced b"
    "stat_iterations s2 = stat_iterations s1 + of_nat (n_applied b)"
    "stat_conflicts s2 = stat_conflicts s1 + of_nat (n_aborted b)"
    "fastPushBackSet s2 = fastPushBackSet s1" by (auto simp: counts_def)
  have "trace s2 = trace s @ (a @ b)" using a(1) b(1) by simp
  moreover have "balanced (a @ b)" using a(2) b(2) by (rule balanced_append)
  moreover have "stat_iterations s2 = stat_iterations s + of_nat (n_applied (a @ b))"
    using a(3) b(3) by simp
  moreover have "stat_conflicts s2 = stat_conflicts s + of_nat (n_aborted (a @ b))"
    using a(4) b(4) by simp
  ultimately show ?thesis using a(5) b(5) unfolding counts_def by blast
qed

lemma abortIteration_shape:
  assumes "abortIteration E p s = (st, s')"
  shows "\<exists>d. trace s' = trace s @ d \<and> n_applied d = 0 \<and> n_aborted d \<le> 1
           \<and> stat_conflicts s' = stat_conflicts s + of_nat (n_aborted d)
           \<and> n_thrown d = 0 \<and> calls d = [] \<and> n_aborted d + pending st = 1"
    and "stat_iterations s' = stat_iterations s"
    and "fastPushBackSet s' = fastPushBackSet s"
  using assms by (auto simp: abortIteration_def Let_def prim split: if_splits)

lemma counts_abort:
  assumes "ran k j s s1" "1 \<le> k" "abortIteration E p s1 = (st, s')"
  shows "counts s s'"
proof -
  from assms(1) obtain a where a: "trace s1 = trace s @ a" "CancelIteration \<notin> set a"
    "n_applied a = k" "stat_iterations s1 = stat_iterations s + of_nat k"
    "stat_conflicts s1 = stat_conflicts s" "fastPushBackSet s1 = fastPushBackSet s"
    by (auto simp: ran_def)
  from abortIteration_shape [OF assms(3)] obtain b where b: "trace s' = trace s1 @ b"
    "n_applied b = 0" "n_aborted b \<le> 1"
    "stat_conflicts s' = stat_conflicts s1 + of_nat (n_aborted b)"
    "stat_iterations s' = stat_iterations s1" "fastPushBackSet s' = fastPushBackSet s1"
    by blast
  have "trace s' = trace s @ (a @ b)" using a(1) b(1) by simp
  moreover have "balanced (a @ b)" using a(2,3) assms(2) b(3) by (intro balanced_abort) simp_all
  moreover have "stat_iterations s' = stat_iterations s + of_nat (n_applied (a @ b))"
    using a(3,4) b(2,5) by simp
  moreover have "stat_conflicts s' = stat_conflicts s + of_nat (n_aborted (a @ b))"
    using a(2,5) b(4) by (simp add: n_aborted_0)
  ultimately show ?thesis using a(6) b(6) unfolding counts_def by blast
qed

lemma counts_emit_call: "is_call e \<Longrightarrow> counts s (emit e s)"
  unfolding counts_def by (cases e) (simp_all add: prim balanced_no_cancel)

lemma counts_runQueue:
  assumes "runQueue E fuel limit q s = (st, s')"
  shows "counts s s'"
proof -
  define s0 where "s0 = emit (RunQueue q limit) s"
  define r where "r = runQueue_loop E q limit fuel 0 s0"
  have e: "counts s s0" unfolding s0_def by (rule counts_emit_call) simp
  from ran_runQueue_loop [where s = s0 and E = E and q = q and limit = limit and fuel = fuel
      and num = 0] obtain k where
    k: "ran k (if is_Thrown r then 1 else 0) s0 (loop_state r)" "is_Thrown r \<longrightarrow> 1 \<le> k"
    unfolding r_def by blast
  have "counts s0 s'"
  proof (cases r)
    case (Drained s1)
    then have "s' = s1" using assms by (simp add: runQueue_def r_def s0_def)
    then show ?thesis using k(1) Drained by (auto intro: ran_counts)
  next
    case (Exhausted s1)
    then have "s' = s1" using assms by (simp add: runQueue_def r_def s0_def)
    then show ?thesis using k(1) Exhausted by (auto intro: ran_counts)
  next
    case (Thrown p s1)
    then have "abortIteration E p s1 = (st, s')" using assms by (simp add: runQueue_def r_def s0_def)
    then show ?thesis using k Thrown by (auto intro: counts_abort)
  qed
  with e show ?thesis by (rule counts_trans)
qed

lemma ran_runQueueSimple_loop:
  "\<exists>k. ran k (pending (fst (runQueueSimple_loop E fuel s))) s
         (snd (runQueueSimple_loop E fuel s))"
proof (induction fuel arbitrary: s)
  case 0
  show ?case using ran_refl by (intro exI [of _ 0]) simp
next
  case (Suc fuel)
  obtain p w where pp: "wl_pop E (wl s) = (p, w)" by (cases "wl_pop E (wl s)")
  show ?case
  proof (cases p)
    case None
    have "ran 0 0 s (s\<lparr>wl := w\<rparr>)" by (simp add: ran_def)
    then show ?thesis using pp None by (intro exI [of _ 0]) simp
  next
    case (Some v)
    let ?s0 = "emit (WlPop v) (s\<lparr>wl := w\<rparr>)"
    have r0: "ran 0 0 s ?s0" by (simp add: ran_def emit_def)
    obtain sg s2 where dp: "doProcess E v ?s0 = (sg, s2)" by (cases "doProcess E v ?s0")
    have r1: "ran 1 (if sg = ConflictFlag then 1 else 0) s s2"
      using ran_trans0 [OF r0 ran_doProcess [OF dp]] .
    show ?thesis
    proof (cases sg)
      case ConflictFlag
      then show ?thesis using pp Some dp r1 by (intro exI [of _ 1]) simp
    next
      case Returned
      from Suc.IH [of s2] obtain k where
        k: "ran k (pending (fst (runQueueSimple_loop E fuel s2))) s2
              (snd (runQueueSimple_loop E fuel s2))" ..
      show ?thesis using pp Some dp Returned ran_trans [OF r1 k]
        by (intro exI [of _ "1 + k"]) simp
    qed
  qed
qed

lemma counts_runQueueSimple:
  assumes "runQueueSimple E fuel s = (st, s')"
  shows "counts s s'"
proof -
  have e: "counts s (emit RunQueueSimple s)" by (rule counts_emit_call) simp
  from ran_runQueueSimple_loop [where E = E and fuel = fuel and s = "emit RunQueueSimple s"]
  obtain k where
    "ran k (pending st) (emit RunQueueSimple s) s'" using assms by (auto simp: runQueueSimple_def)
  then have "counts (emit RunQueueSimple s) s'" by (rule ran_counts)
  with e show ?thesis by (rule counts_trans)
qed

lemma counts_runSomeIterations:
  assumes "runSomeIterations E ca il fuel s = (st, s')"
  shows "counts s s'"
proof (cases "ca \<or> needsBreak (cfg E)")
  case False
  then show ?thesis using assms by (auto simp: runSomeIterations_def intro: counts_runQueueSimple)
next
  case True
  let ?N = "if needsBreak (cfg E) \<or> il then 64 else 0"
  obtain st1 s1 where rq: "runQueue E fuel ?N SharedWL s = (st1, s1)"
    by (cases "runQueue E fuel ?N SharedWL s")
  have c1: "counts s s1" using rq by (rule counts_runQueue)
  show ?thesis
  proof (cases "st1 = Finished \<and> ca")
    case False
    then have "s' = s1" using assms True rq
      by (cases st1) (auto simp: runSomeIterations_def Let_def)
    then show ?thesis using c1 by simp
  next
    case t: True
    then have "handleAborts E fuel s1 = (st, s')" using assms True rq
      by (auto simp: runSomeIterations_def Let_def)
    then have "counts s1 s'" unfolding handleAborts_def by (rule counts_runQueue)
    then show ?thesis using c1 counts_trans by blast
  qed
qed

lemma counts_go_inner:
  "go_inner E ca il budget fuel old s = (st, old', s') \<Longrightarrow> counts s s'"
proof (induction fuel arbitrary: old s)
  case 0
  then show ?case by (simp add: counts_refl)
next
  case (Suc fuel)
  obtain st1 s1 where rs: "runSomeIterations E ca il budget s = (st1, s1)"
    by (cases "runSomeIterations E ca il budget s")
  have c1: "counts s s1" using rs by (rule counts_runSomeIterations)
  show ?case
  proof (cases "st1 = Finished")
    case False
    then have "s' = s1" using Suc.prems rs by (cases st1) auto
    then show ?thesis using c1 by simp
  next
    case True
    define s2 where "s2 = term_localTermination E (old \<noteq> stat_iterations s1) s1"
    define s3 where "s3 = emit (GlobalTermination (globalTermination E (termDetect s2))) s2"
    have c3: "counts s1 s3" by (rule ran_counts [of 0 0]) (simp add: s3_def s2_def ran_def prim)
    have c13: "counts s s3" using c1 c3 by (rule counts_trans)
    show ?thesis
    proof (cases "\<not> globalTermination E (termDetect s2) \<and> (\<not> needsBreak (cfg E) \<or> \<not> broke s3)")
      case False
      then have "s' = s3" using Suc.prems rs True by (auto simp: Let_def s2_def s3_def)
      then show ?thesis using c13 by simp
    next
      case again: True
      then have "go_inner E ca il budget fuel (stat_iterations s1) s3 = (st, old', s')"
        using Suc.prems rs True by (auto simp: Let_def s2_def s3_def)
      then have "counts s3 s'" by (rule Suc.IH)
      then show ?thesis using c13 counts_trans by blast
    qed
  qed
qed

lemma counts_go_outer:
  "go_outer E ca il budget fuel old s = (st, s') \<Longrightarrow> counts s s'"
proof (induction fuel arbitrary: old s)
  case 0
  then show ?case by (simp add: counts_refl)
next
  case (Suc fuel)
  obtain st1 old1 s1 where gi: "go_inner E ca il budget budget old s = (st1, old1, s1)"
    by (cases "go_inner E ca il budget budget old s") auto
  have c1: "counts s s1" using gi by (rule counts_go_inner)
  show ?case
  proof (cases "st1 = Finished")
    case False
    then have "s' = s1" using Suc.prems gi by (cases st1) auto
    then show ?thesis using c1 by simp
  next
    case True
    define s2 where "s2 = emit (CheckEmpty (checkEmpty E s1)) s1"
    have c2: "counts s1 s2" by (rule ran_counts [of 0 0]) (simp add: s2_def ran_def prim)
    have c12: "counts s s2" using c1 c2 by (rule counts_trans)
    show ?thesis
    proof (cases "checkEmpty E s1 \<or> (needsBreak (cfg E) \<and> broke s2)")
      case True
      then have "s' = s2" using Suc.prems gi \<open>st1 = Finished\<close>
        by (auto simp: Let_def s2_def split: if_splits)
      then show ?thesis using c12 by simp
    next
      case False
      define s3 where "s3 = barrier_wait_call E (term_initializeThread E s2)"
      have c3: "counts s2 s3" by (rule ran_counts [of 0 0]) (simp add: s3_def ran_def prim)
      have "go_outer E ca il budget fuel old1 s3 = (st, s')"
        using Suc.prems gi True False by (auto simp: Let_def s2_def s3_def)
      then have "counts s3 s'" by (rule Suc.IH)
      then show ?thesis using c12 c3 counts_trans by blast
    qed
  qed
qed

lemma go_unfold:
  "go E ca il fuel s =
     (case go_outer E ca il fuel fuel 0 (go_setup E ca s) of
        (Finished, s4) \<Rightarrow>
          (Finished, ThreadLocalData_destroy E (if ca then emit (SetThreadContext False) s4 else s4))
      | (UncaughtConflict, s4) \<Rightarrow> (UncaughtConflict, ThreadLocalData_destroy E s4)
      | (st, s4) \<Rightarrow> (st, s4))"
  by (simp add: go_def go_setup_def Let_def split: prod.splits status.splits)

lemma go_setup_facts:
  "stat_iterations (go_setup E ca s) = 0"
  "stat_conflicts (go_setup E ca s) = 0"
  "stat_pushes (go_setup E ca s) = 0"
  "pushBuffer (go_setup E ca s) = []"
  "fastPushBackSet (go_setup E ca s) = (needsPush (cfg E) \<and> \<not> ca)"
  "breakFlagSet (go_setup E ca s) = needsBreak (cfg E)"
  "wl (go_setup E ca s) = wl s"
  "world (go_setup E ca s) = world s"
  "aborted (go_setup E ca s) = aborted s"
  "termDetect (go_setup E ca s) = termDetect s"
  "broke (go_setup E ca s) = broke s"
  "trace (go_setup E ca s) = trace s @ (if needsBreak (cfg E) then [SetBreakFlag] else [])
      @ (if ca then [SetThreadContext True] else [])
      @ (if needsPush (cfg E) \<and> \<not> ca then [SetFastPushBack] else [])"
  by (simp_all add: go_setup_def ThreadLocalData_init_def prim Let_def)

lemma go_finish_facts:
  "stat_iterations (go_finish E ca st s) = stat_iterations s"
  "stat_conflicts (go_finish E ca st s) = stat_conflicts s"
  "stat_pushes (go_finish E ca st s) = stat_pushes s"
  "wl (go_finish E ca st s) = wl s"
  "world (go_finish E ca st s) = world s"
  "termDetect (go_finish E ca st s) = termDetect s"
  "broke (go_finish E ca st s) = broke s"
  "aborted (go_finish E ca st s) = aborted s"
  "fastPushBackSet (go_finish E ca st s) = fastPushBackSet s"
  "trace (go_finish E ca st s) = trace s @ (if ca \<and> st = Finished then [SetThreadContext False] else [])
      @ (if needsStats (cfg E) \<and> (st = Finished \<or> st = UncaughtConflict) then reports s else [])"
  by (simp_all add: go_finish_def go_teardown_def ThreadLocalData_destroy_def reports_def prim)

lemma go_cases:
  assumes "go E ca il fuel s = (st, s')"
  obtains s4 where "go_outer E ca il fuel fuel 0 (go_setup E ca s) = (st, s4)"
    and "s' = go_finish E ca st s4"
proof -
  obtain st4 s4 where go4: "go_outer E ca il fuel fuel 0 (go_setup E ca s) = (st4, s4)"
    by (cases "go_outer E ca il fuel fuel 0 (go_setup E ca s)")
  have "st = st4 \<and> s' = go_finish E ca st s4"
    using assms go4 unfolding go_unfold go_finish_def go_teardown_def by (cases st4) auto
  then show ?thesis using go4 that by blast
qed

lemma since_append: "trace s' = trace s @ d \<Longrightarrow> since s s' = d"
  by (simp add: since_def)

lemma go_counts:
  assumes "go E ca il fuel s = (st, s')"
  shows "\<exists>d. trace s' = trace s @ d \<and> balanced d
           \<and> stat_iterations s' = of_nat (n_applied d)
           \<and> stat_conflicts s' = of_nat (n_aborted d)"
proof -
  from assms obtain s4 where go4: "go_outer E ca il fuel fuel 0 (go_setup E ca s) = (st, s4)"
    and s': "s' = go_finish E ca st s4" by (rule go_cases)
  define s3 where "s3 = go_setup E ca s"
  from counts_go_outer [OF go4] obtain d where d: "trace s4 = trace s3 @ d" "balanced d"
    "stat_iterations s4 = of_nat (n_applied d)" "stat_conflicts s4 = of_nat (n_aborted d)"
    by (auto simp: counts_def s3_def go_setup_facts)
  obtain d0 where d0: "trace s3 = trace s @ d0" "CancelIteration \<notin> set d0" "n_applied d0 = 0"
    by (auto simp: s3_def go_setup_facts)
  have "\<exists>d5. trace s' = trace s4 @ d5 \<and> CancelIteration \<notin> set d5 \<and> n_applied d5 = 0"
    by (simp add: s' go_finish_facts reports_def)
  then obtain d5 where d5: "trace s' = trace s4 @ d5" "CancelIteration \<notin> set d5" "n_applied d5 = 0"
    by blast
  have st: "stat_iterations s' = stat_iterations s4" "stat_conflicts s' = stat_conflicts s4"
    by (simp_all add: s' go_finish_facts)
  have "trace s' = trace s @ (d0 @ d @ d5)" using d0(1) d(1) d5(1) by simp
  moreover have "balanced (d0 @ d @ d5)"
    using balanced_no_cancel [OF d0(2)] d(2) balanced_no_cancel [OF d5(2)]
    by (simp add: balanced_append)
  moreover have "n_applied (d0 @ d @ d5) = n_applied d" "n_aborted (d0 @ d @ d5) = n_aborted d"
    using d0 d5 by (simp_all add: n_aborted_0)
  ultimately show ?thesis using d(3,4) st by metis
qed

lemma unat_of_nat_ulong: "n < 2 ^ 64 \<Longrightarrow> unat (of_nat n :: ulong) = n"
  by (simp add: unat_of_nat)

lemma flaky_run_trace:
  "trace (snd (go flaky_executor True False 5 flaky_start)) =
     [InitializeThread, SetThreadContext True, RunQueue SharedWL 0, WlPop 1,
      StartIteration, Apply 1 ConflictFlag, CancelIteration, ResetPushBuffer, ResetAlloc,
      RunQueue AbortedQ 0, StartIteration, Apply 1 ConflictFlag, CancelIteration,
      ResetPushBuffer, ResetAlloc, LocalTermination True, GlobalTermination False,
      RunQueue SharedWL 0, WlPop 2, StartIteration, Apply 2 Returned, ResetAlloc,
      CommitIteration, WlPop 3, StartIteration, Apply 3 Returned, ResetAlloc,
      CommitIteration, RunQueue AbortedQ 0,
      StartIteration, Apply 1 Returned, ResetAlloc, CommitIteration, LocalTermination True,
      GlobalTermination False, RunQueue SharedWL 0, RunQueue AbortedQ 0,
      LocalTermination False, GlobalTermination True, CheckEmpty True,
      SetThreadContext False, ReportStat ''Conflicts'' 2, ReportStat ''Commits'' 3,
      ReportStat ''Pushes'' 0, ReportStat ''Iterations'' 5]"
  by code_simp

lemma flaky_start_trace: "trace flaky_start = [InitializeThread]"
  by (simp add: flaky_start_def initThread_def ForEachExecutor_init_def prim)

text \<open>
  C10. In every state a worker reaches in \<^verbatim>\<open>go\<close> (the loops may be cut at any
  point by their fuel), as long as fewer than \<open>2 ^ 64\<close> iterations were started, so
  that the 64-bit counter of iterations has not wrapped around: the conflicts counter is
  at most the iterations counter, the two counters are the numbers of operator
  applications and of aborted iterations in the trace of the run, and at every point of
  that trace the aborted iterations are at most as many as the applications before them.
\<close>

theorem conflicts_le_iterations:
  assumes "go E ca il fuel s = (st, s')" and "n_applied (since s s') < 2 ^ 64"
  shows "unat (stat_conflicts s') \<le> unat (stat_iterations s')
         \<and> (\<forall>k. n_aborted (take k (since s s')) \<le> n_applied (take k (since s s')))
         \<and> unat (stat_iterations s') = n_applied (since s s')
         \<and> unat (stat_conflicts s') = n_aborted (since s s')"
proof -
  from go_counts [OF assms(1)] obtain d where d: "trace s' = trace s @ d" "balanced d"
    "stat_iterations s' = of_nat (n_applied d)" "stat_conflicts s' = of_nat (n_aborted d)"
    by blast
  have sd: "since s s' = d" using d(1) by (rule since_append)
  have le: "n_aborted d \<le> n_applied d" using d(2) by (rule balanced_total)
  have b: "n_applied d < 2 ^ 64" using assms(2) sd by simp
  have "unat (of_nat (n_aborted d) :: ulong) = n_aborted d"
    using le b by (intro unat_of_nat_ulong) simp
  moreover have "unat (of_nat (n_applied d) :: ulong) = n_applied d"
    using b by (rule unat_of_nat_ulong)
  ultimately show ?thesis using le d(2,3,4) sd by (simp add: balanced_def)
qed

theorem conflicts_le_iterations_witness:
  "n_applied (since flaky_start (snd (go flaky_executor True False 5 flaky_start))) < 2 ^ 64
   \<and> unat (stat_conflicts (snd (go flaky_executor True False 5 flaky_start)))
       \<le> unat (stat_iterations (snd (go flaky_executor True False 5 flaky_start)))
   \<and> unat (stat_conflicts (snd (go flaky_executor True False 5 flaky_start))) = 2"
proof -
  have run: "go flaky_executor True False 5 flaky_start
      = (fst (go flaky_executor True False 5 flaky_start), snd (go flaky_executor True False 5 flaky_start))"
    by simp
  have n: "n_applied (since flaky_start (snd (go flaky_executor True False 5 flaky_start))) = 5"
    by (simp add: since_def flaky_run_trace flaky_start_trace)
  have a: "n_aborted (since flaky_start (snd (go flaky_executor True False 5 flaky_start))) = 2"
    by (simp add: since_def flaky_run_trace flaky_start_trace)
  have small: "n_applied (since flaky_start (snd (go flaky_executor True False 5 flaky_start))) < 2 ^ 64"
    unfolding n by simp
  from conflicts_le_iterations [OF run small] small a show ?thesis by simp
qed

section \<open>Aborting and committing an iteration\<close>

lemma fold_user_push_no_spill:
  "\<not> fastPushBackSet s \<Longrightarrow>
     wl (fold (user_push E) xs s) = wl s
     \<and> pushBuffer (fold (user_push E) xs s) = pushBuffer s @ xs
     \<and> trace (fold (user_push E) xs s) = trace s
     \<and> \<not> fastPushBackSet (fold (user_push E) xs s)"
  by (induction xs arbitrary: s) (simp_all add: user_push_def Let_def)

lemma call_function_no_spill:
  assumes "call_function E v s = (sg, s')" "\<not> fastPushBackSet s"
  shows "wl s' = wl s" "trace s' = trace s @ [Apply v sg]"
    "pushBuffer s' = pushBuffer s @ op_pushes (origFunction E v (world s))"
proof -
  define r where "r = origFunction E v (world s)"
  define s2 where "s2 = (emit (Apply v (op_signal r)) s)\<lparr>world := op_world r\<rparr>"
  define s3 where "s3 = fold (user_push E) (op_pushes r) s2"
  define s4 where "s4 = s3\<lparr>allocated := allocated s3 + op_allocs r\<rparr>"
  have s': "s' = (if op_break r then breakLoop s4 else s4)" and sg: "sg = op_signal r"
    using assms(1) unfolding call_function_def Let_def r_def s2_def s3_def s4_def by auto
  have n: "\<not> fastPushBackSet s2" using assms(2) by (simp add: s2_def prim)
  from fold_user_push_no_spill [OF n, of E "op_pushes r"]
  have f: "wl s3 = wl s2" "pushBuffer s3 = pushBuffer s2 @ op_pushes r" "trace s3 = trace s2"
    by (simp_all add: s3_def)
  show "wl s' = wl s" using f by (simp add: s' s4_def s2_def prim)
  show "trace s' = trace s @ [Apply v sg]" using f by (simp add: s' s4_def s2_def sg prim)
  show "pushBuffer s' = pushBuffer s @ op_pushes (origFunction E v (world s))"
    using f by (simp add: s' s4_def s2_def r_def prim)
qed

lemma doProcess_ConflictFlag_no_spill:
  assumes "doProcess E v s = (ConflictFlag, s')" "\<not> fastPushBackSet s"
  shows "wl s' = wl s"
    and "trace s' = trace s @ (if needsAborts (cfg E) then [StartIteration] else []) @ [Apply v ConflictFlag]"
    and "pushBuffer s' = pushBuffer s @ op_pushes (origFunction E v (world s))"
proof -
  define s1 where "s1 = (if needsAborts (cfg E) then emit StartIteration s else s)"
  define s2 where "s2 = s1\<lparr>stat_iterations := stat_iterations s1 + 1\<rparr>"
  have cf: "call_function E v s2 = (ConflictFlag, s')"
    using assms(1) unfolding doProcess_def Let_def s1_def s2_def
    by (auto split: prod.splits signal.splits)
  have n: "\<not> fastPushBackSet s2" using assms(2) by (simp add: s2_def s1_def prim)
  from call_function_no_spill [OF cf n]
  show "wl s' = wl s"
    and "trace s' = trace s @ (if needsAborts (cfg E) then [StartIteration] else []) @ [Apply v ConflictFlag]"
    and "pushBuffer s' = pushBuffer s @ op_pushes (origFunction E v (world s))"
    by (simp_all add: s2_def s1_def prim)
qed

lemma pop_fastPushBackSet: "pop E q s = (p, s') \<Longrightarrow> fastPushBackSet s' = fastPushBackSet s"
  using ran_pop [of E q s p s'] by (simp add: ran_def)

lemma doProcess_fastPushBackSet:
  "doProcess E v s = (sg, s') \<Longrightarrow> fastPushBackSet s' = fastPushBackSet s"
  using ran_doProcess [of E v s sg s'] by (simp add: ran_def)

lemma runQueue_loop_Thrown:
  "runQueue_loop E q limit fuel num s = Thrown p s1 \<Longrightarrow>
     \<exists>sa s0. pop E q sa = (Some p, s0) \<and> doProcess E (value_of p) s0 = (ConflictFlag, s1)
        \<and> fastPushBackSet s0 = fastPushBackSet s"
proof (induction fuel arbitrary: num s)
  case 0
  then show ?case by simp
next
  case (Suc fuel)
  have guard: "\<not> (limit \<noteq> 0 \<and> \<not> num < limit)" using Suc.prems by (auto split: if_splits)
  obtain x sx where pp: "pop E q s = (x, sx)" by (cases "pop E q s")
  have fx: "fastPushBackSet sx = fastPushBackSet s" using pp by (rule pop_fastPushBackSet)
  show ?case
  proof (cases x)
    case None
    then show ?thesis using Suc.prems guard pp by (auto simp: Let_def)
  next
    case (Some y)
    obtain sg s2 where dp: "doProcess E (value_of y) sx = (sg, s2)"
      by (cases "doProcess E (value_of y) sx")
    have f2: "fastPushBackSet s2 = fastPushBackSet sx" using dp by (rule doProcess_fastPushBackSet)
    show ?thesis
    proof (cases sg)
      case ConflictFlag
      then have "p = y \<and> s1 = s2" using Suc.prems guard pp Some dp by (auto simp: Let_def)
      then show ?thesis using pp Some dp ConflictFlag fx by blast
    next
      case Returned
      then have "runQueue_loop E q limit fuel (if limit \<noteq> 0 then num + 1 else num) s2 = Thrown p s1"
        using Suc.prems guard pp Some dp by (auto simp: Let_def)
      from Suc.IH [OF this] show ?thesis using f2 fx by auto
    qed
  qed
qed

lemma go_fastPushBackSet:
  assumes "go E ca il fuel s = (st, s')"
  shows "fastPushBackSet s' = (needsPush (cfg E) \<and> \<not> ca)"
proof -
  from assms obtain s4 where go4: "go_outer E ca il fuel fuel 0 (go_setup E ca s) = (st, s4)"
    and s': "s' = go_finish E ca st s4" by (rule go_cases)
  from counts_go_outer [OF go4] have "fastPushBackSet s4 = fastPushBackSet (go_setup E ca s)"
    by (simp add: counts_def)
  then show ?thesis by (simp add: s' go_finish_facts go_setup_facts)
qed

text \<open>
  C1, as the code has it. Whenever the loop of \<^verbatim>\<open>runQueue\<close> ends because the operator
  threw \<^verbatim>\<open>ConflictFlag\<close> on the popped item \<open>p\<close> (with assertions compiled in, the
  executor must have been built with \<open>needsAborts\<close>), \<^verbatim>\<open>runQueue\<close> returns after the
  abort: \<^verbatim>\<open>cancelIteration\<close> is called on the conflict context, the conflicts counter is
  one higher, one record for \<open>p\<close> is appended to one queue of the abort handler (with
  retry count 1 for a value, and one more than before for a record), and with
  \<open>needsPush\<close> the push buffer is empty. Where no fast-push-back callback is installed,
  what the aborted iteration staged was still in the push buffer when the operator
  threw, and the worklist is as the pop of \<open>p\<close> left it: nothing the aborted iteration
  staged has reached it. In every state \<^verbatim>\<open>go\<close> reaches, the callback is installed
  exactly when \<open>needsPush\<close> holds and \<open>couldAbort\<close> does not.
\<close>

theorem conflict_aborts_iteration:
  assumes "runQueue_loop E q limit fuel 0 (emit (RunQueue q limit) s) = Thrown p s1"
    and "assertions E \<longrightarrow> needsAborts (cfg E)"
  shows "(\<exists>sa s0 s'. pop E q sa = (Some p, s0)
           \<and> doProcess E (value_of p) s0 = (ConflictFlag, s1)
           \<and> runQueue E fuel limit q s = (Finished, s')
           \<and> trace s' = trace s1 @ CancelIteration
                # (if needsPush (cfg E) then [ResetPushBuffer] else [])
                @ (if needsPia (cfg E) then [ResetAlloc] else [])
           \<and> stat_conflicts s' = stat_conflicts s1 + 1
           \<and> (\<exists>t. queues (aborted s')
                  = (queues (aborted s1))(t := queues (aborted s1) t
                       @ [case p of Val v \<Rightarrow> \<lparr>val = v, retries = 1\<rparr>
                          | Itm i \<Rightarrow> \<lparr>val = val i, retries = retries i + 1\<rparr>]))
           \<and> (needsPush (cfg E) \<longrightarrow> pushBuffer s' = [])
           \<and> (\<not> fastPushBackSet s \<longrightarrow>
                 wl s' = wl s0
                 \<and> trace s1 = trace s0 @ (if needsAborts (cfg E) then [StartIteration] else [])
                       @ [Apply (value_of p) ConflictFlag]
                 \<and> pushBuffer s1
                       = pushBuffer s0 @ op_pushes (origFunction E (value_of p) (world s0))))
         \<and> (go E ca il n z = (st, z') \<longrightarrow> fastPushBackSet z' = (needsPush (cfg E) \<and> \<not> ca))"
proof -
  from runQueue_loop_Thrown [OF assms(1)] obtain sa s0 where
    a: "pop E q sa = (Some p, s0)" "doProcess E (value_of p) s0 = (ConflictFlag, s1)"
       "fastPushBackSet s0 = fastPushBackSet s" by (auto simp: prim)
  have "\<exists>s'. abortIteration E p s1 = (Finished, s')
           \<and> trace s' = trace s1 @ CancelIteration
                # (if needsPush (cfg E) then [ResetPushBuffer] else [])
                @ (if needsPia (cfg E) then [ResetAlloc] else [])
           \<and> stat_conflicts s' = stat_conflicts s1 + 1
           \<and> aborted s' = push (threadPool E) p (aborted s1)
           \<and> (needsPush (cfg E) \<longrightarrow> pushBuffer s' = [])
           \<and> wl s' = wl s1"
    using assms(2) by (auto simp: abortIteration_def Let_def prim)
  then obtain s' where
    b: "abortIteration E p s1 = (Finished, s')"
       "trace s' = trace s1 @ CancelIteration
          # (if needsPush (cfg E) then [ResetPushBuffer] else [])
          @ (if needsPia (cfg E) then [ResetAlloc] else [])"
       "stat_conflicts s' = stat_conflicts s1 + 1"
       "aborted s' = push (threadPool E) p (aborted s1)"
       "needsPush (cfg E) \<longrightarrow> pushBuffer s' = []"
       "wl s' = wl s1" by blast
  have r: "runQueue E fuel limit q s = (Finished, s')"
    using assms(1) b(1) by (simp add: runQueue_def)
  have qs: "\<exists>t. queues (aborted s')
                  = (queues (aborted s1))(t := queues (aborted s1) t
                       @ [case p of Val v \<Rightarrow> \<lparr>val = v, retries = 1\<rparr>
                          | Itm i \<Rightarrow> \<lparr>val = val i, retries = retries i + 1\<rparr>])"
    unfolding b(4)
    by (cases p)
       (auto simp: push_value_def push_Item_def basicPolicy_def doublePolicy_def queue_push_def
          Let_def)
  have w: "\<not> fastPushBackSet s \<longrightarrow>
                 wl s' = wl s0
                 \<and> trace s1 = trace s0 @ (if needsAborts (cfg E) then [StartIteration] else [])
                       @ [Apply (value_of p) ConflictFlag]
                 \<and> pushBuffer s1
                       = pushBuffer s0 @ op_pushes (origFunction E (value_of p) (world s0))"
    using doProcess_ConflictFlag_no_spill [OF a(2)] a(3) b(6) by simp
  have g: "go E ca il n z = (st, z') \<longrightarrow> fastPushBackSet z' = (needsPush (cfg E) \<and> \<not> ca)"
    using go_fastPushBackSet [of E ca il n z st z'] by blast
  have "\<exists>sa s0 s'. pop E q sa = (Some p, s0)
           \<and> doProcess E (value_of p) s0 = (ConflictFlag, s1)
           \<and> runQueue E fuel limit q s = (Finished, s')
           \<and> trace s' = trace s1 @ CancelIteration
                # (if needsPush (cfg E) then [ResetPushBuffer] else [])
                @ (if needsPia (cfg E) then [ResetAlloc] else [])
           \<and> stat_conflicts s' = stat_conflicts s1 + 1
           \<and> (\<exists>t. queues (aborted s')
                  = (queues (aborted s1))(t := queues (aborted s1) t
                       @ [case p of Val v \<Rightarrow> \<lparr>val = v, retries = 1\<rparr>
                          | Itm i \<Rightarrow> \<lparr>val = val i, retries = retries i + 1\<rparr>]))
           \<and> (needsPush (cfg E) \<longrightarrow> pushBuffer s' = [])
           \<and> (\<not> fastPushBackSet s \<longrightarrow>
                 wl s' = wl s0
                 \<and> trace s1 = trace s0 @ (if needsAborts (cfg E) then [StartIteration] else [])
                       @ [Apply (value_of p) ConflictFlag]
                 \<and> pushBuffer s1
                       = pushBuffer s0 @ op_pushes (origFunction E (value_of p) (world s0)))"
    using a(1,2) r b(2,3,5) qs w by blast
  then show ?thesis using g by blast
qed

text \<open>
  C2. With \<open>needsPush\<close> and \<open>needsAborts\<close>, \<^verbatim>\<open>commitIteration\<close> pushes a non-empty push
  buffer to the worklist, adds its size to the pushes counter and clears it, and only
  then calls \<^verbatim>\<open>commitIteration\<close> on the conflict context, the last call it makes; an
  empty buffer is not pushed, and worklist and counter stay as they are.
\<close>

theorem commit_flushes_before_release:
  assumes "needsPush (cfg E)" and "needsAborts (cfg E)"
  shows "trace (commitIteration E s) =
           trace s @ (if pushBuffer s \<noteq> [] then [WlPush (pushBuffer s)] else [])
             @ (if needsPia (cfg E) then [ResetAlloc] else []) @ [CommitIteration]
         \<and> stat_pushes (commitIteration E s) = stat_pushes s + of_nat (length (pushBuffer s))
         \<and> pushBuffer (commitIteration E s) = []
         \<and> wl (commitIteration E s) =
             (if pushBuffer s \<noteq> [] then wl_push E (pushBuffer s) (wl s) else wl s)"
  using assms by (simp add: commitIteration_def Let_def prim)

lemmas concrete_defs = flaky_executor_def flaky_start_def fifo_executor_def all_flags_def flaky_def
  tp_two_packages_def initThread_def ForEachExecutor_init_def AbortHandler_init_def

theorem conflict_aborts_iteration_witness:
  "(\<exists>s1. runQueue_loop flaky_executor SharedWL 0 2 0 (emit (RunQueue SharedWL 0) flaky_start)
            = Thrown (Val 1) s1)
   \<and> needsAborts (cfg flaky_executor)
   \<and> \<not> fastPushBackSet flaky_start
   \<and> op_pushes (flaky 1 ([], 2)) = [101]
   \<and> (\<exists>s'. runQueue flaky_executor 2 0 SharedWL flaky_start = (Finished, s')
          \<and> stat_conflicts s' = 1 \<and> pushBuffer s' = [] \<and> wl s' = [2, 3]
          \<and> queues (aborted s') 3 = [\<lparr>val = 1, retries = 1\<rparr>]
          \<and> trace s' = [InitializeThread, RunQueue SharedWL 0, WlPop 1, StartIteration,
                            Apply 1 ConflictFlag, CancelIteration, ResetPushBuffer, ResetAlloc])"
proof -
  let ?L = "runQueue_loop flaky_executor SharedWL 0 2 0 (emit (RunQueue SharedWL 0) flaky_start)"
  let ?R = "runQueue flaky_executor 2 0 SharedWL flaky_start"
  have h1: "?L = Thrown (Val 1) (loop_state ?L)"
    by (simp add: concrete_defs prim pop_def doProcess_def call_function_def Let_def numeral_2_eq_2)
  have na: "needsAborts (cfg flaky_executor)" by (simp add: concrete_defs)
  then have h2: "assertions flaky_executor \<longrightarrow> needsAborts (cfg flaky_executor)" by simp
  have nf: "\<not> fastPushBackSet flaky_start" by (simp add: concrete_defs prim)
  have op: "op_pushes (flaky 1 ([], 2)) = [101]" by (simp add: flaky_def)
  from conflict_aborts_iteration [OF h1 h2, THEN conjunct1] obtain s' where
    r: "?R = (Finished, s')" and p: "needsPush (cfg flaky_executor) \<longrightarrow> pushBuffer s' = []"
    by blast
  have s': "s' = snd ?R" using r by simp
  have "stat_conflicts (snd ?R) = 1" by code_simp
  moreover have "wl (snd ?R) = [2, 3]" by code_simp
  moreover have "queues (aborted (snd ?R)) 3 = [\<lparr>val = 1, retries = 1\<rparr>]" by code_simp
  moreover have "trace (snd ?R) = [InitializeThread, RunQueue SharedWL 0, WlPop 1, StartIteration,
      Apply 1 ConflictFlag, CancelIteration, ResetPushBuffer, ResetAlloc]" by code_simp
  moreover have "pushBuffer s' = []" using p by (simp add: concrete_defs)
  ultimately show ?thesis using h1 na nf op r s' by blast
qed

text \<open>
  C1, as the claim states it, fails. With one active thread and break enabled,
  \<^verbatim>\<open>go\<close> runs \<^verbatim>\<open>runQueue<64>\<close> with the fast-push-back callback installed. The operator,
  applied to the item 1, stages 101 and throws: 101 is pushed to the worklist before the
  iteration is aborted, and it is popped and processed later in the run.
\<close>

theorem staged_items_counterexample:
  "activeThreads break_executor = 1 \<and> needsPush (cfg break_executor)
   \<and> needsAborts (cfg break_executor)
   \<and> op_signal (flaky 1 ([], 1)) = ConflictFlag \<and> op_pushes (flaky 1 ([], 1)) = [101]
   \<and> wl spill_start = [1, 2, 3] \<and> world spill_start = ([], 1)
   \<and> fst (executor_call break_executor 4 spill_start) = Finished
   \<and> trace (snd (executor_call break_executor 4 spill_start))
       = [InitializeThread, SetBreakFlag, SetFastPushBack, RunQueue SharedWL 64,
          WlPop 1, StartIteration, Apply 1 ConflictFlag, WlPush [101],
          CancelIteration, ResetPushBuffer, ResetAlloc, LocalTermination True,
          GlobalTermination False, RunQueue SharedWL 64, WlPop 2, StartIteration,
          Apply 2 Returned, ResetAlloc, CommitIteration, WlPop 3, StartIteration,
          Apply 3 Returned, ResetAlloc, CommitIteration, WlPop 101, StartIteration,
          Apply 101 Returned, ResetAlloc, CommitIteration, LocalTermination True,
          GlobalTermination False, RunQueue SharedWL 64, LocalTermination False,
          GlobalTermination True, CheckEmpty True, ReportStat ''Conflicts'' 1,
          ReportStat ''Commits'' 3, ReportStat ''Pushes'' 0,
          ReportStat ''Iterations'' 4]
   \<and> world (snd (executor_call break_executor 4 spill_start)) = ([2, 3, 101], 0)"
  by code_simp

theorem commit_flushes_before_release_witness:
  "needsPush (cfg flaky_executor) \<and> needsAborts (cfg flaky_executor)
   \<and> trace (commitIteration flaky_executor (flaky_start\<lparr>pushBuffer := [5, 6]\<rparr>))
       = [InitializeThread, WlPush [5, 6], ResetAlloc, CommitIteration]
   \<and> wl (commitIteration flaky_executor (flaky_start\<lparr>pushBuffer := [5, 6]\<rparr>)) = [1, 2, 3, 5, 6]
   \<and> stat_pushes (commitIteration flaky_executor (flaky_start\<lparr>pushBuffer := [5, 6]\<rparr>)) = 2
   \<and> trace (commitIteration flaky_executor flaky_start)
       = [InitializeThread, ResetAlloc, CommitIteration]
   \<and> wl (commitIteration flaky_executor flaky_start) = [1, 2, 3]
   \<and> stat_pushes (commitIteration flaky_executor flaky_start) = 0"
proof -
  have h1: "needsPush (cfg flaky_executor)" and h2: "needsAborts (cfg flaky_executor)"
    by (simp_all add: concrete_defs)
  from commit_flushes_before_release [OF h1 h2, of "flaky_start\<lparr>pushBuffer := [5, 6]\<rparr>"]
       commit_flushes_before_release [OF h1 h2, of flaky_start] h1 h2
  show ?thesis by (simp add: concrete_defs prim)
qed

lemma pop_SharedWL_Val: "pop E SharedWL s = (Some p, s1) \<Longrightarrow> \<exists>v. p = Val v"
  by (auto simp: pop_def split: prod.splits option.splits)

lemma pop_AbortedQ_Itm: "pop E AbortedQ s = (Some p, s1) \<Longrightarrow> \<exists>i. p = Itm i"
  by (auto simp: pop_def split: prod.splits)

text \<open>
  C9. What is popped from the shared worklist is a plain value, and what is popped from
  an abort queue is a record. Aborting the iteration of a plain value, its first abort,
  appends the record of the value with retry count 1 to the aborting thread's own queue
  and changes no other queue, whatever \<open>useBasicPolicy\<close> says; the escalation
  policy is reached only by records, that is from the second abort on.
\<close>

theorem first_abort_goes_local:
  "queues (push tp (Val v) ah)
     = (queues ah)(getTID tp := queues ah (getTID tp) @ [\<lparr>val = v, retries = 1\<rparr>])
   \<and> queues (push tp (Val v) (ah\<lparr>useBasicPolicy := b\<rparr>)) = queues (push tp (Val v) ah)
   \<and> useBasicPolicy (push tp (Val v) ah) = useBasicPolicy ah
   \<and> (pop E SharedWL s = (Some p, s1) \<longrightarrow> (\<exists>x. p = Val x))
   \<and> (pop E AbortedQ s = (Some p, s1) \<longrightarrow> (\<exists>i. p = Itm i))
   \<and> (abortIteration E (Val v) s = (Finished, s') \<longrightarrow>
        queues (aborted s')
          = (queues (aborted s))
              (getTID (threadPool E)
                 := queues (aborted s) (getTID (threadPool E)) @ [\<lparr>val = v, retries = 1\<rparr>]))"
proof -
  have 1: "queues (push tp (Val v) ah)
       = (queues ah)(getTID tp := queues ah (getTID tp) @ [\<lparr>val = v, retries = 1\<rparr>])
     \<and> queues (push tp (Val v) (ah\<lparr>useBasicPolicy := b\<rparr>)) = queues (push tp (Val v) ah)
     \<and> useBasicPolicy (push tp (Val v) ah) = useBasicPolicy ah"
    by (simp add: push_value_def queue_push_def)
  have 4: "(pop E SharedWL s = (Some p, s1) \<longrightarrow> (\<exists>x. p = Val x))
     \<and> (pop E AbortedQ s = (Some p, s1) \<longrightarrow> (\<exists>i. p = Itm i))"
    by (auto simp: pop_def split: prod.splits option.splits)
  have 6: "abortIteration E (Val v) s = (Finished, s') \<longrightarrow>
        queues (aborted s')
          = (queues (aborted s))
              (getTID (threadPool E)
                 := queues (aborted s) (getTID (threadPool E)) @ [\<lparr>val = v, retries = 1\<rparr>])"
    by (auto simp: abortIteration_def Let_def emit_def resetPushBuffer_def resetAlloc_def
        push_value_def queue_push_def split: if_splits)
  show ?thesis using 1 4 6 by blast
qed

theorem first_abort_goes_local_witness:
  "pop flaky_executor SharedWL flaky_start = (Some (Val 1), emit (WlPop 1) (flaky_start\<lparr>wl := [2, 3]\<rparr>))
   \<and> abortIteration flaky_executor (Val 1) flaky_start
       = (Finished, snd (abortIteration flaky_executor (Val 1) flaky_start))
   \<and> getTID (threadPool flaky_executor) = 3
   \<and> queues (aborted (snd (abortIteration flaky_executor (Val 1) flaky_start))) 3
       = [\<lparr>val = 1, retries = 1\<rparr>]
   \<and> queues (aborted (snd (abortIteration flaky_executor (Val 1) flaky_start))) 2 = []"
proof -
  let ?a = "abortIteration flaky_executor (Val 1) flaky_start"
  have p: "pop flaky_executor SharedWL flaky_start = (Some (Val 1), emit (WlPop 1) (flaky_start\<lparr>wl := [2, 3]\<rparr>))"
    by (simp add: concrete_defs prim pop_def)
  have a: "?a = (Finished, snd ?a)"
    by (simp add: concrete_defs abortIteration_def Let_def)
  have t: "getTID (threadPool flaky_executor) = 3"
    by (simp add: flaky_executor_def fifo_executor_def tp_two_packages_def)
  have q0: "queues (aborted flaky_start) = (\<lambda>t. [])"
    by (simp add: concrete_defs prim)
  note T = first_abort_goes_local [of "threadPool flaky_executor" 1 "aborted flaky_start" True
         flaky_executor flaky_start "Val 1" "emit (WlPop 1) (flaky_start\<lparr>wl := [2, 3]\<rparr>)"
         "snd ?a"]
  have "queues (aborted (snd ?a))
      = (queues (aborted flaky_start))(3 := queues (aborted flaky_start) 3 @ [\<lparr>val = 1, retries = 1\<rparr>])"
    using T [THEN conjunct2, THEN conjunct2, THEN conjunct2, THEN conjunct2, THEN conjunct2] a t
    by simp
  then show ?thesis using p a t q0 by simp
qed

section \<open>The worker loop: termination, statistics and the sequential case\<close>

lemma emit_simps [simp]:
  "pushBuffer (emit e s) = pushBuffer s"
  "allocated (emit e s) = allocated s"
  "fastPushBackSet (emit e s) = fastPushBackSet s"
  "breakFlagSet (emit e s) = breakFlagSet s"
  "stat_conflicts (emit e s) = stat_conflicts s"
  "stat_iterations (emit e s) = stat_iterations s"
  "stat_pushes (emit e s) = stat_pushes s"
  "aborted (emit e s) = aborted s"
  "termDetect (emit e s) = termDetect s"
  "wl (emit e s) = wl s"
  "broke (emit e s) = broke s"
  "world (emit e s) = world s"
  "trace (emit e s) = trace s @ [e]"
  by (simp_all add: emit_def)

lemma go_inner_Suc_cases [consumes 1, case_names stop last again]:
  assumes "go_inner E ca il b (Suc n) old s = (st, old', s')"
  obtains (stop) "runSomeIterations E ca il b s = (st, s')" "st \<noteq> Finished"
  | (last) s1 where "runSomeIterations E ca il b s = (Finished, s1)"
      "s' = inner_tail E old s1" "st = Finished"
      "globalTermination E (termDetect s') \<or> (needsBreak (cfg E) \<and> broke s')"
  | (again) s1 where "runSomeIterations E ca il b s = (Finished, s1)"
      "go_inner E ca il b n (stat_iterations s1) (inner_tail E old s1) = (st, old', s')"
      "\<not> globalTermination E (termDetect (inner_tail E old s1))"
proof -
  obtain st1 s1 where rs: "runSomeIterations E ca il b s = (st1, s1)"
    by (cases "runSomeIterations E ca il b s")
  show ?thesis
  proof (cases "st1 = Finished")
    case False
    then have "st = st1 \<and> s' = s1" using assms rs by (cases st1) auto
    then show ?thesis using stop rs False by simp
  next
    case True
    let ?t = "inner_tail E old s1"
    have g: "globalTermination E (termDetect ?t)
        = globalTermination E (termDetect (term_localTermination E (old \<noteq> stat_iterations s1) s1))"
      by (simp add: inner_tail_def Let_def prim)
    show ?thesis
    proof (cases "\<not> globalTermination E (termDetect ?t) \<and> (\<not> needsBreak (cfg E) \<or> \<not> broke ?t)")
      case True
      then have "go_inner E ca il b n (stat_iterations s1) ?t = (st, old', s')"
        using assms rs \<open>st1 = Finished\<close> g by (simp add: inner_tail_def Let_def)
      then show ?thesis using again rs \<open>st1 = Finished\<close> True by simp
    next
      case False
      then have "st = Finished \<and> s' = ?t"
        using assms rs \<open>st1 = Finished\<close> g by (auto simp: inner_tail_def Let_def)
      then show ?thesis using last rs \<open>st1 = Finished\<close> False by auto
    qed
  qed
qed

lemma go_outer_Suc_cases [consumes 1, case_names stop exit again]:
  assumes "go_outer E ca il b (Suc n) old s = (st, s')"
  obtains (stop) old1 where "go_inner E ca il b b old s = (st, old1, s')" "st \<noteq> Finished"
  | (exit) old1 s1 where "go_inner E ca il b b old s = (Finished, old1, s1)"
      "s' = emit (CheckEmpty (checkEmpty E s1)) s1" "st = Finished"
      "checkEmpty E s1 \<or> (needsBreak (cfg E) \<and> broke s1)"
  | (again) old1 s1 where "go_inner E ca il b b old s = (Finished, old1, s1)"
      "\<not> checkEmpty E s1" "\<not> (needsBreak (cfg E) \<and> broke s1)"
      "go_outer E ca il b n old1 (outer_tail E s1) = (st, s')"
proof -
  obtain st1 old1 s1 where gi: "go_inner E ca il b b old s = (st1, old1, s1)"
    by (cases "go_inner E ca il b b old s") auto
  show ?thesis
  proof (cases "st1 = Finished")
    case False
    then have "st = st1 \<and> s' = s1" using assms gi by (cases st1) auto
    then show ?thesis using stop gi False by simp
  next
    case True
    show ?thesis
    proof (cases "checkEmpty E s1 \<or> (needsBreak (cfg E) \<and> broke s1)")
      case True
      then have "st = Finished \<and> s' = emit (CheckEmpty (checkEmpty E s1)) s1"
        using assms gi \<open>st1 = Finished\<close> by (auto simp: Let_def split: if_splits)
      then show ?thesis using exit gi \<open>st1 = Finished\<close> True by simp
    next
      case False
      then have "go_outer E ca il b n old1 (outer_tail E s1) = (st, s')"
        using assms gi \<open>st1 = Finished\<close> by (auto simp: Let_def outer_tail_def)
      then show ?thesis using again gi \<open>st1 = Finished\<close> False by simp
    qed
  qed
qed

lemma bookkeeping_inner_tail: "bookkeeping s (inner_tail E old s)"
  unfolding bookkeeping_def inner_tail_def Let_def
  by (intro exI [of _ "[LocalTermination (old \<noteq> stat_iterations s),
        GlobalTermination (globalTermination E (localTermination E (old \<noteq> stat_iterations s) (termDetect s)))]"]
      exI [of _ "localTermination E (old \<noteq> stat_iterations s) (termDetect s)"])
     (simp add: prim)

lemma bookkeeping_CheckEmpty: "bookkeeping s (emit (CheckEmpty b) s)"
  unfolding bookkeeping_def
  by (intro exI [of _ "[CheckEmpty b]"] exI [of _ "termDetect s"]) (simp add: prim)

lemma bookkeeping_outer_tail: "bookkeeping s (outer_tail E s)"
  unfolding bookkeeping_def outer_tail_def
  by (intro exI [of _ "[CheckEmpty False, InitializeThread, BarrierWait]"]
      exI [of _ "barrier_wait E (initializeThread E (termDetect s))"]) (simp add: prim)

lemma liftableD:
  assumes "liftable R E ca il b"
  shows "R OutOfFuel s s"
    and "R Finished s s1 \<Longrightarrow> R st s1 s2 \<Longrightarrow> R st s s2"
    and "runSomeIterations E ca il b s = (st, s') \<Longrightarrow> R st s s'"
    and "bookkeeping s s' \<Longrightarrow> R Finished s s'"
  using assms unfolding liftable_def by blast+

lemma go_inner_lift:
  assumes "liftable R E ca il b"
  shows "go_inner E ca il b fuel old s = (st, old', s') \<Longrightarrow> R st s s'"
proof (induction fuel arbitrary: old s)
  case 0
  then show ?case using liftableD(1) [OF assms] by simp
next
  case (Suc n)
  from Suc.prems show ?case
  proof (cases rule: go_inner_Suc_cases)
    case stop
    then show ?thesis using liftableD(3) [OF assms] by simp
  next
    case (last s1)
    have "R Finished s s1" using last(1) by (rule liftableD(3) [OF assms])
    moreover have "R Finished s1 (inner_tail E old s1)"
      using bookkeeping_inner_tail by (rule liftableD(4) [OF assms])
    ultimately show ?thesis using last(2,3) liftableD(2) [OF assms] by blast
  next
    case (again s1)
    have "R Finished s s1" using again(1) by (rule liftableD(3) [OF assms])
    moreover have "R Finished s1 (inner_tail E old s1)"
      using bookkeeping_inner_tail by (rule liftableD(4) [OF assms])
    moreover have "R st (inner_tail E old s1) s'" using again(2) by (rule Suc.IH)
    ultimately show ?thesis using liftableD(2) [OF assms] by blast
  qed
qed

lemma go_outer_lift:
  assumes "liftable R E ca il b"
  shows "go_outer E ca il b fuel old s = (st, s') \<Longrightarrow> R st s s'"
proof (induction fuel arbitrary: old s)
  case 0
  then show ?case using liftableD(1) [OF assms] by simp
next
  case (Suc n)
  from Suc.prems show ?case
  proof (cases rule: go_outer_Suc_cases)
    case (stop old1)
    then show ?thesis using go_inner_lift [OF assms] by simp
  next
    case (exit old1 s1)
    have "R Finished s s1" using exit(1) by (rule go_inner_lift [OF assms])
    moreover have "R Finished s1 (emit (CheckEmpty (checkEmpty E s1)) s1)"
      using bookkeeping_CheckEmpty by (rule liftableD(4) [OF assms])
    ultimately show ?thesis using exit(2,3) liftableD(2) [OF assms] by blast
  next
    case (again old1 s1)
    have "R Finished s s1" using again(1) by (rule go_inner_lift [OF assms])
    moreover have "R Finished s1 (outer_tail E s1)"
      using bookkeeping_outer_tail by (rule liftableD(4) [OF assms])
    moreover have "R st (outer_tail E s1) s'" using again(4) by (rule Suc.IH)
    ultimately show ?thesis using liftableD(2) [OF assms] by blast
  qed
qed

lemma go_inner_first:
  assumes "liftable R E ca il b" and "go_inner E ca il b fuel old s = (Finished, old', s')"
  shows "\<exists>sA. runSomeIterations E ca il b s = (Finished, sA) \<and> R Finished sA s'"
proof (cases fuel)
  case 0
  then show ?thesis using assms(2) by simp
next
  case (Suc n)
  from assms(2) [unfolded Suc] show ?thesis
  proof (cases rule: go_inner_Suc_cases)
    case stop
    then show ?thesis by simp
  next
    case (last sA)
    have "R Finished sA (inner_tail E old sA)"
      using bookkeeping_inner_tail by (rule liftableD(4) [OF assms(1)])
    then show ?thesis using last by blast
  next
    case (again sA)
    have "R Finished sA (inner_tail E old sA)"
      using bookkeeping_inner_tail by (rule liftableD(4) [OF assms(1)])
    moreover have "R Finished (inner_tail E old sA) s'"
      using again(2) by (rule go_inner_lift [OF assms(1)])
    ultimately show ?thesis using again(1) liftableD(2) [OF assms(1)] by blast
  qed
qed

lemma go_outer_first:
  assumes "liftable R E ca il b" and "go_outer E ca il b fuel old s = (Finished, s')"
  shows "\<exists>sA. runSomeIterations E ca il b s = (Finished, sA) \<and> R Finished sA s'"
proof (cases fuel)
  case 0
  then show ?thesis using assms(2) by simp
next
  case (Suc n)
  from assms(2) [unfolded Suc] show ?thesis
  proof (cases rule: go_outer_Suc_cases)
    case (stop old1)
    then show ?thesis by simp
  next
    case (exit old1 s1)
    from go_inner_first [OF assms(1) exit(1)] obtain sA where
      a: "runSomeIterations E ca il b s = (Finished, sA)" "R Finished sA s1" by blast
    have "R Finished s1 s'"
      unfolding exit(2) using bookkeeping_CheckEmpty by (rule liftableD(4) [OF assms(1)])
    then show ?thesis using a liftableD(2) [OF assms(1)] by blast
  next
    case (again old1 s1)
    from go_inner_first [OF assms(1) again(1)] obtain sA where
      a: "runSomeIterations E ca il b s = (Finished, sA)" "R Finished sA s1" by blast
    have "R Finished s1 (outer_tail E s1)"
      using bookkeeping_outer_tail by (rule liftableD(4) [OF assms(1)])
    moreover have "R Finished (outer_tail E s1) s'"
      using again(4) by (rule go_outer_lift [OF assms(1)])
    ultimately have "R Finished s1 s'" using liftableD(2) [OF assms(1)] by blast
    then show ?thesis using a liftableD(2) [OF assms(1)] by blast
  qed
qed

lemma ctl_events:
  "\<forall>e \<in> set es. is_ctl e \<Longrightarrow>
     n_applied es = 0 \<and> n_thrown es = 0 \<and> CancelIteration \<notin> set es \<and> calls es = []"
proof (induction es)
  case Nil
  show ?case by simp
next
  case (Cons e es)
  then show ?case by (cases e) auto
qed

lemma bookkeeping_ran: "bookkeeping s s' \<Longrightarrow> ran 0 0 s s'"
  unfolding bookkeeping_def ran_def using ctl_events by fastforce

lemma bookkeeping_frame:
  assumes "bookkeeping s s'"
  shows "wl s' = wl s" "world s' = world s" "pushBuffer s' = pushBuffer s"
    "fastPushBackSet s' = fastPushBackSet s" "broke s' = broke s" "aborted s' = aborted s"
  using assms by (auto simp: bookkeeping_def)

lemma tidy_refl: "pending st = 0 \<Longrightarrow> tidy A st s s"
  by (simp add: tidy_def)

lemma tidy_trans: "tidy A Finished s s1 \<Longrightarrow> tidy A st s1 s2 \<Longrightarrow> tidy A st s s2"
  by (auto simp: tidy_def)

lemma tidy_mono: "A \<subseteq> B \<Longrightarrow> tidy A st s s' \<Longrightarrow> tidy B st s s'"
  by (auto simp: tidy_def)

lemma ran_tidy: "ran k (pending st) s s' \<Longrightarrow> tidy A st s s'"
  by (auto simp: ran_def tidy_def n_aborted_0)

lemma tidy_bookkeeping: "bookkeeping s s' \<Longrightarrow> tidy A Finished s s'"
  using ran_tidy [of 0 Finished s s' A] bookkeeping_ran by fastforce

lemma tidy_call: "is_call e \<Longrightarrow> e \<in> A \<Longrightarrow> tidy A Finished s (emit e s)"
  by (cases e) (simp_all add: tidy_def)

lemma tidy_runQueue:
  assumes "runQueue E fuel limit q s = (st, s')"
  shows "tidy {RunQueue q limit} st s s'"
proof -
  define s0 where "s0 = emit (RunQueue q limit) s"
  define r where "r = runQueue_loop E q limit fuel 0 s0"
  have e: "tidy {RunQueue q limit} Finished s s0" unfolding s0_def by (rule tidy_call) simp_all
  from ran_runQueue_loop [where s = s0 and E = E and q = q and limit = limit and fuel = fuel
      and num = 0] obtain k where
    k: "ran k (if is_Thrown r then 1 else 0) s0 (loop_state r)" unfolding r_def by blast
  have "tidy {RunQueue q limit} st s0 s'"
  proof (cases r)
    case (Drained s1)
    then have "s' = s1 \<and> st = Finished" using assms by (simp add: runQueue_def r_def s0_def)
    then show ?thesis using k Drained by (auto intro: ran_tidy)
  next
    case (Exhausted s1)
    then have "s' = s1 \<and> st = OutOfFuel" using assms by (simp add: runQueue_def r_def s0_def)
    then show ?thesis using k Exhausted by (auto intro: ran_tidy)
  next
    case (Thrown p s1)
    then have ab: "abortIteration E p s1 = (st, s')"
      using assms by (simp add: runQueue_def r_def s0_def)
    from k Thrown obtain a where a: "trace s1 = trace s0 @ a" "CancelIteration \<notin> set a"
      "n_thrown a = 1" "calls a = []" by (auto simp: ran_def)
    from abortIteration_shape(1) [OF ab] obtain b where b: "trace s' = trace s1 @ b"
      "n_thrown b = 0" "calls b = []" "n_aborted b + pending st = 1" by blast
    have "trace s' = trace s0 @ (a @ b)" using a(1) b(1) by simp
    moreover have "n_thrown (a @ b) = n_aborted (a @ b) + pending st"
      using a(2,3) b(2,4) by (simp add: n_aborted_0)
    moreover have "calls (a @ b) = []" using a(4) b(3) by simp
    ultimately show ?thesis unfolding tidy_def by (intro exI [of _ "a @ b"]) simp
  qed
  with e show ?thesis by (rule tidy_trans)
qed

lemma tidy_runQueueSimple:
  assumes "runQueueSimple E fuel s = (st, s')"
  shows "tidy {RunQueueSimple} st s s'"
proof -
  have e: "tidy {RunQueueSimple} Finished s (emit RunQueueSimple s)"
    by (rule tidy_call) simp_all
  from ran_runQueueSimple_loop [where E = E and fuel = fuel and s = "emit RunQueueSimple s"]
  obtain k where
    "ran k (pending st) (emit RunQueueSimple s) s'" using assms by (auto simp: runQueueSimple_def)
  then have "tidy {RunQueueSimple} st (emit RunQueueSimple s) s'" by (rule ran_tidy)
  with e show ?thesis by (rule tidy_trans)
qed

lemma runSomeIterations_cases [consumes 1, case_names simple stop shared both]:
  assumes "runSomeIterations E ca il fuel s = (st, s')"
  obtains (simple) "\<not> ca" "\<not> needsBreak (cfg E)" "runQueueSimple E fuel s = (st, s')"
  | (stop) "ca \<or> needsBreak (cfg E)" "st \<noteq> Finished"
      "runQueue E fuel (if needsBreak (cfg E) \<or> il then 64 else 0) SharedWL s = (st, s')"
  | (shared) "\<not> ca" "needsBreak (cfg E)" "st = Finished"
      "runQueue E fuel 64 SharedWL s = (Finished, s')"
  | (both) s1 where "ca"
      "runQueue E fuel (if needsBreak (cfg E) \<or> il then 64 else 0) SharedWL s = (Finished, s1)"
      "handleAborts E fuel s1 = (st, s')"
proof (cases "ca \<or> needsBreak (cfg E)")
  case False
  then show ?thesis using assms simple by (simp add: runSomeIterations_def)
next
  case True
  let ?N = "if needsBreak (cfg E) \<or> il then 64 else 0"
  obtain st1 s1 where rq: "runQueue E fuel ?N SharedWL s = (st1, s1)"
    by (cases "runQueue E fuel ?N SharedWL s")
  show ?thesis
  proof (cases "st1 = Finished")
    case False
    then have "st = st1 \<and> s' = s1" using assms True rq
      by (cases st1) (auto simp: runSomeIterations_def Let_def)
    then show ?thesis using stop True False rq by simp
  next
    case fin: True
    show ?thesis
    proof (cases ca)
      case True
      then have "handleAborts E fuel s1 = (st, s')" using assms rq fin
        by (auto simp: runSomeIterations_def Let_def)
      then show ?thesis using both True rq fin by simp
    next
      case False
      then have "st = Finished \<and> s' = s1" "needsBreak (cfg E)" using assms rq fin True
        by (auto simp: runSomeIterations_def Let_def)
      then show ?thesis using shared False rq fin by simp
    qed
  qed
qed

lemma tidy_runSomeIterations:
  assumes "runSomeIterations E ca il fuel s = (st, s')"
  shows "tidy (allowed_calls E ca il) st s s'"
  using assms
proof (cases rule: runSomeIterations_cases)
  case simple
  then show ?thesis using tidy_runQueueSimple [of E fuel s st s']
    by (simp add: allowed_calls_def)
next
  case stop
  then show ?thesis using tidy_runQueue [OF stop(3)]
    by (auto simp: allowed_calls_def intro: tidy_mono [rotated])
next
  case shared
  then show ?thesis using tidy_runQueue [OF shared(4)]
    by (auto simp: allowed_calls_def intro: tidy_mono [rotated])
next
  case (both s1)
  have "tidy (allowed_calls E ca il) Finished s s1"
    using tidy_runQueue [OF both(2)] both(1)
    by (auto simp: allowed_calls_def intro: tidy_mono [rotated])
  moreover have "tidy (allowed_calls E ca il) st s1 s'"
    using tidy_runQueue [OF both(3) [unfolded handleAborts_def]] both(1)
    by (auto simp: allowed_calls_def intro: tidy_mono [rotated])
  ultimately show ?thesis by (rule tidy_trans)
qed

lemma tidy_go_outer:
  assumes "go_outer E ca il b fuel old s = (st, s')"
  shows "tidy (allowed_calls E ca il) st s s'"
proof -
  have "liftable (tidy (allowed_calls E ca il)) E ca il b"
    unfolding liftable_def
  proof (intro conjI allI impI)
    fix s :: "('a, 'b, 'c, 'd) state"
    show "tidy (allowed_calls E ca il) OutOfFuel s s" by (rule tidy_refl) simp
  next
    fix st and s s1 s2 :: "('a, 'b, 'c, 'd) state"
    assume "tidy (allowed_calls E ca il) Finished s s1" "tidy (allowed_calls E ca il) st s1 s2"
    then show "tidy (allowed_calls E ca il) st s s2" by (rule tidy_trans)
  next
    fix st s s'
    assume "runSomeIterations E ca il b s = (st, s')"
    then show "tidy (allowed_calls E ca il) st s s'" by (rule tidy_runSomeIterations)
  next
    fix s s' :: "('a, 'b, 'c, 'd) state"
    assume "bookkeeping s s'"
    then show "tidy (allowed_calls E ca il) Finished s s'" by (rule tidy_bookkeeping)
  qed
  then show ?thesis using assms by (rule go_outer_lift)
qed

lemma setup_events:
  "\<exists>d. trace (go_setup E ca s) = trace s @ d \<and> n_applied d = 0 \<and> n_thrown d = 0
       \<and> n_aborted d = 0 \<and> calls d = []"
  by (simp add: go_setup_facts)

lemma finish_events:
  "\<exists>d. trace (go_finish E ca st s) = trace s @ d \<and> n_applied d = 0 \<and> n_thrown d = 0
       \<and> n_aborted d = 0 \<and> calls d = []"
  by (simp add: go_finish_facts reports_def)

lemma tidy_go:
  assumes "go E ca il fuel s = (st, s')"
  shows "tidy (allowed_calls E ca il) st s s'"
proof -
  from assms obtain s4 where go4: "go_outer E ca il fuel fuel 0 (go_setup E ca s) = (st, s4)"
    and s': "s' = go_finish E ca st s4" by (rule go_cases)
  have a: "tidy (allowed_calls E ca il) Finished s (go_setup E ca s)"
    using setup_events [of E ca s] by (auto simp: tidy_def)
  have b: "tidy (allowed_calls E ca il) st (go_setup E ca s) s4" using go4 by (rule tidy_go_outer)
  from tidy_trans [OF a b] obtain d where d: "trace s4 = trace s @ d"
    "n_thrown d = n_aborted d + pending st" "set (calls d) \<subseteq> allowed_calls E ca il"
    by (auto simp: tidy_def)
  from finish_events [of E ca st s4] obtain d5 where d5: "trace s' = trace s4 @ d5"
    "n_thrown d5 = 0" "n_aborted d5 = 0" "calls d5 = []" unfolding s' by blast
  have "trace s' = trace s @ (d @ d5)" using d(1) d5(1) by simp
  moreover have "n_thrown (d @ d5) = n_aborted (d @ d5) + pending st" using d(2) d5(2,3) by simp
  moreover have "set (calls (d @ d5)) \<subseteq> allowed_calls E ca il" using d(3) d5(4) by simp
  ultimately show ?thesis unfolding tidy_def by blast
qed

lemma applied_split: "n_applied d = n_committed d + n_thrown d"
proof (induction d)
  case Nil
  show ?case by (simp add: n_committed_def)
next
  case (Cons e d)
  then show ?case by (cases e) (auto simp: n_committed_def split: signal.splits)
qed

text \<open>
  C4. Whenever the thread-local data of \<^verbatim>\<open>go\<close> are destroyed with \<open>needsStats\<close>
  (\<^verbatim>\<open>go\<close> returns, or a \<^verbatim>\<open>ConflictFlag\<close> that no handler catches leaves it), the last
  four calls of the worker report Conflicts, Commits, Pushes and Iterations, Commits
  being the iterations counter minus the conflicts counter, so that Iterations is Commits
  plus Conflicts. The iterations counter is the number of applications of the operator
  in the run and the conflicts counter the number of aborted iterations (both modulo
  \<open>2 ^ 64\<close>). When \<^verbatim>\<open>go\<close> returns, Commits is the number of applications that returned;
  when a \<^verbatim>\<open>ConflictFlag\<close> leaves \<^verbatim>\<open>go\<close>, Commits also counts the application that threw
  it, which was neither committed nor aborted.
\<close>

theorem reported_commits:
  assumes "go E ca il fuel s = (st, s')" and "needsStats (cfg E)"
    and "st = Finished \<or> st = UncaughtConflict"
  shows "(\<exists>pre. trace s' = pre @
            [ReportStat ''Conflicts'' (stat_conflicts s'),
             ReportStat ''Commits'' (stat_iterations s' - stat_conflicts s'),
             ReportStat ''Pushes'' (stat_pushes s'),
             ReportStat ''Iterations'' (stat_iterations s')])
         \<and> stat_iterations s' = (stat_iterations s' - stat_conflicts s') + stat_conflicts s'
         \<and> stat_iterations s' = of_nat (n_applied (since s s'))
         \<and> stat_conflicts s' = of_nat (n_aborted (since s s'))
         \<and> stat_iterations s' - stat_conflicts s'
             = of_nat (n_committed (since s s') + (if st = UncaughtConflict then 1 else 0))
         \<and> n_applied (since s s')
             = n_committed (since s s') + n_aborted (since s s')
                 + (if st = UncaughtConflict then 1 else 0)"
proof -
  from assms(1) obtain s4 where go4: "go_outer E ca il fuel fuel 0 (go_setup E ca s) = (st, s4)"
    and s': "s' = go_finish E ca st s4" by (rule go_cases)
  from assms(1,3) have "\<exists>s5. s' = ThreadLocalData_destroy E s5"
    by (auto simp: go_def Let_def split: prod.splits status.splits)
  then have rep: "\<exists>pre. trace s' = pre @
            [ReportStat ''Conflicts'' (stat_conflicts s'),
             ReportStat ''Commits'' (stat_iterations s' - stat_conflicts s'),
             ReportStat ''Pushes'' (stat_pushes s'),
             ReportStat ''Iterations'' (stat_iterations s')]"
    using assms(2) by (auto simp: ThreadLocalData_destroy_def emit_def)
  from go_counts [OF assms(1)] obtain d where d: "trace s' = trace s @ d"
    "stat_iterations s' = of_nat (n_applied d)" "stat_conflicts s' = of_nat (n_aborted d)"
    by blast
  have sd: "since s s' = d" using d(1) by (rule since_append)
  have pe: "pending st = (if st = UncaughtConflict then 1 else 0)" using assms(3) by auto
  from tidy_go [OF assms(1)] d(1) have th: "n_thrown d = n_aborted d + pending st"
    by (auto simp: tidy_def)
  have split: "n_applied d = n_committed d + n_aborted d + (if st = UncaughtConflict then 1 else 0)"
    using applied_split [of d] th pe by simp
  have "stat_iterations s' - stat_conflicts s'
      = of_nat (n_committed d + (if st = UncaughtConflict then 1 else 0))"
    unfolding d(2,3) split by simp
  then show ?thesis using rep d(2,3) split sd by simp
qed

lemma executor_call_go:
  "executor_call E fuel s = go E (couldAbort_of E) (isLeader (threadPool E)) fuel s"
  by (auto simp: executor_call_def couldAbort_of_def Let_def)

lemma runQueue_head:
  assumes "runQueue E fuel limit q s = (st, s')"
  shows "\<exists>d. trace s' = trace s @ RunQueue q limit # d"
    and "limit \<noteq> 0 \<longrightarrow> n_applied (since s s') \<le> limit"
proof -
  define s0 where "s0 = emit (RunQueue q limit) s"
  define r where "r = runQueue_loop E q limit fuel 0 s0"
  from ran_runQueue_loop [where s = s0 and E = E and q = q and limit = limit and fuel = fuel
      and num = 0] obtain k where
    k: "ran k (if is_Thrown r then 1 else 0) s0 (loop_state r)" "limit \<noteq> 0 \<longrightarrow> k \<le> limit"
    unfolding r_def by auto
  from k(1) obtain a where a: "trace (loop_state r) = trace s0 @ a" "n_applied a = k"
    by (auto simp: ran_def)
  have "\<exists>b. trace s' = trace (loop_state r) @ b \<and> n_applied b = 0"
  proof (cases r)
    case (Drained s1)
    then show ?thesis using assms by (simp add: runQueue_def r_def s0_def)
  next
    case (Exhausted s1)
    then show ?thesis using assms by (simp add: runQueue_def r_def s0_def)
  next
    case (Thrown p s1)
    then have "abortIteration E p s1 = (st, s')"
      using assms by (simp add: runQueue_def r_def s0_def)
    from abortIteration_shape(1) [OF this] show ?thesis using Thrown by auto
  qed
  then obtain b where b: "trace s' = trace (loop_state r) @ b" "n_applied b = 0" by blast
  have t: "trace s' = trace s @ RunQueue q limit # (a @ b)" using a(1) b(1) by (simp add: s0_def)
  then show "\<exists>d. trace s' = trace s @ RunQueue q limit # d" by blast
  have "since s s' = RunQueue q limit # (a @ b)" using t by (rule since_append)
  then show "limit \<noteq> 0 \<longrightarrow> n_applied (since s s') \<le> limit" using a(2) b(2) k(2) by simp
qed

text \<open>
  C6, as the code has it. Every call of \<^verbatim>\<open>runQueue\<close> on the shared worklist in a run of
  the executor has the limit 64 when break is enabled or the thread is the leader, and
  the limit 0 (none) otherwise; without \<open>couldAbort\<close> and break there is no such call,
  with one of them the block that runs iterations starts with it; and a call with limit
  64 applies the operator at most 64 times.
\<close>

theorem runQueue_limit:
  assumes "executor_call E fuel s = (st, s')"
  shows "(\<forall>n. RunQueue SharedWL n \<in> set (since s s') \<longrightarrow>
            n = (if needsBreak (cfg E) \<or> isLeader (threadPool E) then 64 else 0))
         \<and> (\<not> (couldAbort_of E \<or> needsBreak (cfg E)) \<longrightarrow>
              (\<forall>n. RunQueue SharedWL n \<notin> set (since s s')))
         \<and> (couldAbort_of E \<or> needsBreak (cfg E) \<longrightarrow>
              (\<exists>d. trace (snd (runSomeIterations E (couldAbort_of E) (isLeader (threadPool E)) fuel s))
                      = trace s @ RunQueue SharedWL
                          (if needsBreak (cfg E) \<or> isLeader (threadPool E) then 64 else 0) # d))
         \<and> n_applied (since s (snd (runQueue E fuel 64 SharedWL s))) \<le> 64"
proof -
  let ?ca = "couldAbort_of E" and ?il = "isLeader (threadPool E)"
  let ?L = "if needsBreak (cfg E) \<or> ?il then 64 else (0::nat)"
  have g: "go E ?ca ?il fuel s = (st, s')" using assms by (simp add: executor_call_go)
  from tidy_go [OF g] obtain d where d: "trace s' = trace s @ d"
    "set (calls d) \<subseteq> allowed_calls E ?ca ?il" by (auto simp: tidy_def)
  have sd: "since s s' = d" using d(1) by (rule since_append)
  have mem: "RunQueue SharedWL n \<in> set d \<Longrightarrow> RunQueue SharedWL n \<in> allowed_calls E ?ca ?il" for n
    using d(2) by (auto simp: calls_def)
  have 1: "\<forall>n. RunQueue SharedWL n \<in> set (since s s') \<longrightarrow> n = ?L"
  proof (intro allI impI)
    fix n assume "RunQueue SharedWL n \<in> set (since s s')"
    then have "RunQueue SharedWL n \<in> allowed_calls E ?ca ?il" using mem sd by simp
    then show "n = ?L" by (auto simp: allowed_calls_def split: if_splits)
  qed
  have 2: "\<not> (?ca \<or> needsBreak (cfg E)) \<longrightarrow> (\<forall>n. RunQueue SharedWL n \<notin> set (since s s'))"
  proof (intro allI impI notI)
    fix n assume "\<not> (?ca \<or> needsBreak (cfg E))" and "RunQueue SharedWL n \<in> set (since s s')"
    then have "RunQueue SharedWL n \<in> {RunQueueSimple}" using mem sd by (simp add: allowed_calls_def)
    then show False by simp
  qed
  have 3: "?ca \<or> needsBreak (cfg E) \<longrightarrow>
      (\<exists>d. trace (snd (runSomeIterations E ?ca ?il fuel s)) = trace s @ RunQueue SharedWL ?L # d)"
  proof
    assume c: "?ca \<or> needsBreak (cfg E)"
    obtain st1 s1 where rs: "runSomeIterations E ?ca ?il fuel s = (st1, s1)"
      by (cases "runSomeIterations E ?ca ?il fuel s")
    from rs have "\<exists>d. trace s1 = trace s @ RunQueue SharedWL ?L # d"
    proof (cases rule: runSomeIterations_cases)
      case simple
      then show ?thesis using c by simp
    next
      case stop
      then show ?thesis using runQueue_head(1) [OF stop(3)] by simp
    next
      case shared
      then show ?thesis using runQueue_head(1) [OF shared(4)] by simp
    next
      case (both s2)
      from runQueue_head(1) [OF both(2)] obtain a where
        a: "trace s2 = trace s @ RunQueue SharedWL ?L # a" by blast
      from runQueue_head(1) [OF both(3) [unfolded handleAborts_def]] obtain b where
        "trace s1 = trace s2 @ RunQueue AbortedQ 0 # b" by blast
      then show ?thesis using a by simp
    qed
    then show "\<exists>d. trace (snd (runSomeIterations E ?ca ?il fuel s)) = trace s @ RunQueue SharedWL ?L # d"
      using rs by simp
  qed
  have 4: "n_applied (since s (snd (runQueue E fuel 64 SharedWL s))) \<le> 64"
    using runQueue_head(2) [of E fuel 64 SharedWL s "fst (runQueue E fuel 64 SharedWL s)"
        "snd (runQueue E fuel 64 SharedWL s)"] by simp
  show ?thesis using 1 2 3 4 by blast
qed

lemma go_inner_Finished:
  "go_inner E ca il b fuel old s = (Finished, old', s') \<Longrightarrow>
     globalTermination E (termDetect s') \<or> (needsBreak (cfg E) \<and> broke s')"
proof (induction fuel arbitrary: old s)
  case 0
  then show ?case by simp
next
  case (Suc n)
  from Suc.prems show ?case
  proof (cases rule: go_inner_Suc_cases)
    case stop
    then show ?thesis by simp
  next
    case (last s1)
    then show ?thesis by simp
  next
    case (again s1)
    then show ?thesis using Suc.IH by blast
  qed
qed

lemma checkEmpty_emit [simp]: "checkEmpty E (emit e s) = checkEmpty E s"
  by (simp add: checkEmpty_def split: option.splits)

lemma go_outer_Finished:
  "go_outer E ca il b fuel old s = (Finished, s') \<Longrightarrow>
     (globalTermination E (termDetect s') \<or> (needsBreak (cfg E) \<and> broke s'))
     \<and> (checkEmpty E s' \<or> (needsBreak (cfg E) \<and> broke s'))"
proof (induction fuel arbitrary: old s)
  case 0
  then show ?case by simp
next
  case (Suc n)
  from Suc.prems show ?case
  proof (cases rule: go_outer_Suc_cases)
    case (stop old1)
    then show ?thesis by simp
  next
    case (exit old1 s1)
    then show ?thesis using go_inner_Finished [OF exit(1)] by auto
  next
    case (again old1 s1)
    then show ?thesis using Suc.IH by blast
  qed
qed

lemma protocol_append:
  "protocol ph (a @ b) = (case protocol ph a of None \<Rightarrow> None | Some ph' \<Rightarrow> protocol ph' b)"
  by (induction a arbitrary: ph) (simp_all split: option.splits)

lemma protocol_step_body: "is_body e \<Longrightarrow> protocol_step ph e = Some ph"
  by (cases e) (simp_all add: is_body_def)

lemma protocol_body: "\<forall>e \<in> set d. is_body e \<Longrightarrow> protocol ph d = Some ph"
  by (induction d) (simp_all add: protocol_step_body)

lemma body_refl: "body_only s s"
  by (simp add: body_only_def)

lemma body_trans: "body_only s s1 \<Longrightarrow> body_only s1 s2 \<Longrightarrow> body_only s s2"
  by (auto simp: body_only_def)

lemma body_user_push: "body_only s (user_push E v s)"
  by (simp add: body_only_def is_body_def prim Let_def)

lemma body_fold_user_push: "body_only s (fold (user_push E) xs s)"
proof (induction xs arbitrary: s)
  case Nil
  show ?case by (simp add: body_refl)
next
  case (Cons x xs)
  show ?case using body_trans [OF body_user_push Cons.IH] by simp
qed

lemma body_call_function:
  assumes "call_function E v s = (sg, s')"
  shows "body_only s s'"
proof -
  define r where "r = origFunction E v (world s)"
  define s2 where "s2 = (emit (Apply v (op_signal r)) s)\<lparr>world := op_world r\<rparr>"
  define s3 where "s3 = fold (user_push E) (op_pushes r) s2"
  define s4 where "s4 = s3\<lparr>allocated := allocated s3 + op_allocs r\<rparr>"
  have s': "s' = (if op_break r then breakLoop s4 else s4)"
    using assms unfolding call_function_def Let_def r_def s2_def s3_def s4_def by auto
  have a: "body_only s s2" by (simp add: s2_def body_only_def is_body_def)
  have b: "body_only s2 s3" unfolding s3_def by (rule body_fold_user_push)
  have c: "body_only s3 s'" by (simp add: s' s4_def body_only_def breakLoop_def)
  show ?thesis using body_trans [OF body_trans [OF a b] c] .
qed

lemma body_commitIteration: "body_only s (commitIteration E s)"
  by (simp add: commitIteration_def body_only_def is_body_def prim Let_def)

lemma body_doProcess:
  assumes "doProcess E v s = (sg, s')"
  shows "body_only s s'"
proof -
  define s1 where "s1 = (if needsAborts (cfg E) then emit StartIteration s else s)"
  define s2 where "s2 = s1\<lparr>stat_iterations := stat_iterations s1 + 1\<rparr>"
  obtain sg3 s3 where cf: "call_function E v s2 = (sg3, s3)" by (cases "call_function E v s2")
  have a: "body_only s s2" by (simp add: s2_def s1_def body_only_def is_body_def)
  have b: "body_only s2 s3" using cf by (rule body_call_function)
  have "s' = (if sg3 = Returned then commitIteration E s3 else s3)"
    using assms cf by (cases sg3) (auto simp: doProcess_def Let_def s2_def s1_def)
  then have c: "body_only s3 s'" by (simp add: body_commitIteration body_refl)
  show ?thesis using body_trans [OF body_trans [OF a b] c] .
qed

lemma body_pop: "pop E q s = (p, s') \<Longrightarrow> body_only s s'"
  by (cases q) (auto simp: pop_def body_only_def is_body_def split: prod.splits option.splits)

lemma body_abortIteration: "abortIteration E p s = (st, s') \<Longrightarrow> body_only s s'"
  by (auto simp: abortIteration_def Let_def body_only_def is_body_def prim split: if_splits)

lemma body_runQueue_loop:
  "body_only s (loop_state (runQueue_loop E q limit fuel num s))"
proof (induction fuel arbitrary: num s)
  case 0
  show ?case by (simp add: body_refl)
next
  case (Suc fuel)
  show ?case
  proof (cases "limit \<noteq> 0 \<and> \<not> num < limit")
    case True
    then show ?thesis by (simp add: body_refl)
  next
    case False
    obtain p s1 where pp: "pop E q s = (p, s1)" by (cases "pop E q s")
    have r0: "body_only s s1" using pp by (rule body_pop)
    show ?thesis
    proof (cases p)
      case None
      then show ?thesis using False pp r0 by (auto simp: Let_def)
    next
      case (Some x)
      obtain sg s2 where dp: "doProcess E (value_of x) s1 = (sg, s2)"
        by (cases "doProcess E (value_of x) s1")
      have r1: "body_only s s2" using body_trans [OF r0 body_doProcess [OF dp]] .
      show ?thesis
      proof (cases sg)
        case ConflictFlag
        then show ?thesis using False pp Some dp r1 by (auto simp: Let_def)
      next
        case Returned
        let ?n = "if limit \<noteq> 0 then num + 1 else num"
        have eq: "runQueue_loop E q limit (Suc fuel) num s = runQueue_loop E q limit fuel ?n s2"
          using False pp Some dp Returned by (auto simp: Let_def)
        show ?thesis unfolding eq using body_trans [OF r1 Suc.IH [where num = ?n and s = s2]] .
      qed
    qed
  qed
qed

lemma body_runQueueSimple_loop: "body_only s (snd (runQueueSimple_loop E fuel s))"
proof (induction fuel arbitrary: s)
  case 0
  show ?case by (simp add: body_refl)
next
  case (Suc fuel)
  obtain p w where pp: "wl_pop E (wl s) = (p, w)" by (cases "wl_pop E (wl s)")
  show ?case
  proof (cases p)
    case None
    then show ?thesis using pp by (simp add: body_only_def)
  next
    case (Some v)
    let ?s0 = "emit (WlPop v) (s\<lparr>wl := w\<rparr>)"
    have r0: "body_only s ?s0" by (simp add: body_only_def is_body_def)
    obtain sg s2 where dp: "doProcess E v ?s0 = (sg, s2)" by (cases "doProcess E v ?s0")
    have r1: "body_only s s2" using body_trans [OF r0 body_doProcess [OF dp]] .
    show ?thesis
    proof (cases sg)
      case ConflictFlag
      then show ?thesis using pp Some dp r1 by simp
    next
      case Returned
      then show ?thesis using pp Some dp body_trans [OF r1 Suc.IH [of s2]] by simp
    qed
  qed
qed

lemma passes_call:
  assumes "is_call c" "body_only (emit c s) s'"
  shows "passes s s'"
proof -
  from assms(2) obtain d where d: "trace s' = trace s @ c # d" "\<forall>e \<in> set d. is_body e"
    and td: "termDetect s' = termDetect s"
    by (auto simp: body_only_def)
  have "protocol ph (c # d) = Some InPass" if "enters ph" for ph
    using that assms(1) protocol_body [OF d(2), of InPass] by (cases c) (auto simp: enters_def)
  then show ?thesis using d(1) td unfolding passes_def by blast
qed

lemma passes_trans: "passes s s1 \<Longrightarrow> passes s1 s2 \<Longrightarrow> passes s s2"
  unfolding passes_def
  by (auto simp: protocol_append enters_def)

lemma passes_runQueue:
  assumes "runQueue E fuel limit q s = (st, s')"
  shows "passes s s'"
proof -
  define s0 where "s0 = emit (RunQueue q limit) s"
  define r where "r = runQueue_loop E q limit fuel 0 s0"
  have l: "body_only s0 (loop_state r)" unfolding r_def by (rule body_runQueue_loop)
  have "body_only (loop_state r) s'"
  proof (cases r)
    case (Drained s1)
    then show ?thesis using assms by (simp add: runQueue_def r_def s0_def body_refl)
  next
    case (Exhausted s1)
    then show ?thesis using assms by (simp add: runQueue_def r_def s0_def body_refl)
  next
    case (Thrown p s1)
    then have "abortIteration E p s1 = (st, s')"
      using assms by (simp add: runQueue_def r_def s0_def)
    then show ?thesis using Thrown by (simp add: body_abortIteration)
  qed
  then have "body_only s0 s'" using l body_trans by blast
  then show ?thesis unfolding s0_def by (intro passes_call) simp_all
qed

lemma passes_runSomeIterations:
  assumes "runSomeIterations E ca il fuel s = (st, s')"
  shows "passes s s'"
  using assms
proof (cases rule: runSomeIterations_cases)
  case simple
  have "body_only (emit RunQueueSimple s) s'"
    using body_runQueueSimple_loop [of "emit RunQueueSimple s" E fuel] simple(3)
    by (simp add: runQueueSimple_def)
  then show ?thesis by (intro passes_call) simp_all
next
  case stop
  then show ?thesis by (simp add: passes_runQueue)
next
  case shared
  then show ?thesis by (simp add: passes_runQueue)
next
  case (both s1)
  have "passes s s1" using both(2) by (rule passes_runQueue)
  moreover have "passes s1 s'" using both(3) unfolding handleAborts_def by (rule passes_runQueue)
  ultimately show ?thesis by (rule passes_trans)
qed

lemma inner_tail_trace:
  "trace (inner_tail E old s) = trace s @
     [LocalTermination (old \<noteq> stat_iterations s),
      GlobalTermination (globalTermination E (termDetect (inner_tail E old s)))]"
  by (simp add: inner_tail_def Let_def prim)

lemma protocol_go_inner:
  "go_inner E ca il b fuel old s = (st, old', s') \<Longrightarrow> ph = Ready \<or> ph = Asked False \<Longrightarrow>
     \<exists>d ph'. trace s' = trace s @ d \<and> protocol ph d = Some ph'
        \<and> (st = Finished \<longrightarrow> ph' = Asked (globalTermination E (termDetect s')))"
proof (induction fuel arbitrary: old s ph)
  case 0
  then show ?case by auto
next
  case (Suc n)
  have en: "enters ph" using Suc.prems(2) by (auto simp: enters_def)
  from Suc.prems(1) show ?case
  proof (cases rule: go_inner_Suc_cases)
    case stop
    from passes_runSomeIterations [OF stop(1)] en obtain d where
      "trace s' = trace s @ d" "protocol ph d = Some InPass" by (auto simp: passes_def)
    then show ?thesis using stop(2) by blast
  next
    case (last s1)
    from passes_runSomeIterations [OF last(1)] en obtain d where
      d: "trace s1 = trace s @ d" "protocol ph d = Some InPass" by (auto simp: passes_def)
    let ?t = "[LocalTermination (old \<noteq> stat_iterations s1),
      GlobalTermination (globalTermination E (termDetect s'))]"
    have t: "trace s' = trace s @ (d @ ?t)" using d(1) inner_tail_trace [of E old s1] last(2) by simp
    have "protocol ph (d @ ?t) = Some (Asked (globalTermination E (termDetect s')))"
      using d(2) by (simp add: protocol_append)
    then show ?thesis using t by blast
  next
    case (again s1)
    from passes_runSomeIterations [OF again(1)] en obtain d where
      d: "trace s1 = trace s @ d" "protocol ph d = Some InPass" by (auto simp: passes_def)
    let ?s2 = "inner_tail E old s1"
    let ?g = "globalTermination E (termDetect ?s2)"
    let ?t = "[LocalTermination (old \<noteq> stat_iterations s1), GlobalTermination ?g]"
    from Suc.IH [OF again(2), of "Asked False"] obtain d2 ph' where
      d2: "trace s' = trace ?s2 @ d2" "protocol (Asked False) d2 = Some ph'"
      "st = Finished \<longrightarrow> ph' = Asked (globalTermination E (termDetect s'))" by auto
    have t: "trace s' = trace s @ (d @ ?t @ d2)"
      using d(1) d2(1) inner_tail_trace [of E old s1] by simp
    have "protocol ph (d @ ?t @ d2) = Some ph'"
      using d(2) d2(2) again(3) by (simp add: protocol_append)
    then show ?thesis using t d2(3) by blast
  qed
qed

lemma protocol_go_outer:
  "go_outer E ca il b fuel old s = (st, s') \<Longrightarrow>
     \<exists>d ph'. trace s' = trace s @ d \<and> protocol Ready d = Some ph'
        \<and> (st = Finished \<longrightarrow>
              ph' = Checked (globalTermination E (termDetect s')) (checkEmpty E s'))"
proof (induction fuel arbitrary: old s)
  case 0
  then show ?case by auto
next
  case (Suc n)
  from Suc.prems show ?case
  proof (cases rule: go_outer_Suc_cases)
    case (stop old1)
    from protocol_go_inner [OF stop(1), of Ready] obtain d ph' where
      "trace s' = trace s @ d" "protocol Ready d = Some ph'" by auto
    then show ?thesis using stop(2) by blast
  next
    case (exit old1 s1)
    from protocol_go_inner [OF exit(1), of Ready] obtain d where
      d: "trace s1 = trace s @ d"
      "protocol Ready d = Some (Asked (globalTermination E (termDetect s1)))" by auto
    have t: "trace s' = trace s @ (d @ [CheckEmpty (checkEmpty E s1)])" using d(1) exit(2) by simp
    have "protocol Ready (d @ [CheckEmpty (checkEmpty E s1)])
        = Some (Checked (globalTermination E (termDetect s')) (checkEmpty E s'))"
      using d(2) exit(2) by (simp add: protocol_append)
    then show ?thesis using t by blast
  next
    case (again old1 s1)
    from protocol_go_inner [OF again(1), of Ready] obtain d where
      d: "trace s1 = trace s @ d"
      "protocol Ready d = Some (Asked (globalTermination E (termDetect s1)))" by auto
    let ?t = "[CheckEmpty False, InitializeThread, BarrierWait]"
    have o: "trace (outer_tail E s1) = trace s1 @ ?t" by (simp add: outer_tail_def prim)
    from Suc.IH [OF again(4)] obtain d2 ph' where
      d2: "trace s' = trace (outer_tail E s1) @ d2" "protocol Ready d2 = Some ph'"
      "st = Finished \<longrightarrow>
         ph' = Checked (globalTermination E (termDetect s')) (checkEmpty E s')" by auto
    have t: "trace s' = trace s @ (d @ ?t @ d2)" using d(1) d2(1) o by simp
    have "protocol Ready (d @ ?t @ d2) = Some ph'"
      using d(2) d2(2) by (simp add: protocol_append)
    then show ?thesis using t d2(3) by blast
  qed
qed

lemma protocol_go:
  assumes "go E ca il fuel s = (st, s')"
  shows "\<exists>ph. protocol Ready (since s s') = Some ph
           \<and> (st = Finished \<longrightarrow>
                 ph = Checked (globalTermination E (termDetect s')) (checkEmpty E s'))"
proof -
  from assms obtain s4 where go4: "go_outer E ca il fuel fuel 0 (go_setup E ca s) = (st, s4)"
    and s': "s' = go_finish E ca st s4" by (rule go_cases)
  from protocol_go_outer [OF go4] obtain d ph where
    d: "trace s4 = trace (go_setup E ca s) @ d" "protocol Ready d = Some ph"
    "st = Finished \<longrightarrow> ph = Checked (globalTermination E (termDetect s4)) (checkEmpty E s4)"
    by auto
  have "\<exists>d0. trace (go_setup E ca s) = trace s @ d0 \<and> (\<forall>e \<in> set d0. is_body e)"
    by (auto simp: go_setup_facts is_body_def)
  then obtain d0 where d0: "trace (go_setup E ca s) = trace s @ d0" "\<forall>e \<in> set d0. is_body e"
    by blast
  have "\<exists>d5. trace s' = trace s4 @ d5 \<and> (\<forall>e \<in> set d5. is_body e)"
    by (auto simp: s' go_finish_facts reports_def is_body_def)
  then obtain d5 where d5: "trace s' = trace s4 @ d5" "\<forall>e \<in> set d5. is_body e" by blast
  have sd: "since s s' = d0 @ d @ d5" using d0(1) d(1) d5(1) by (simp add: since_def)
  have "protocol Ready (d0 @ d @ d5) = Some ph"
    using d(2) protocol_body [OF d0(2)] protocol_body [OF d5(2)] by (simp add: protocol_append)
  moreover have "checkEmpty E s' = checkEmpty E s4" "termDetect s' = termDetect s4"
    by (simp_all add: s' go_finish_facts checkEmpty_def split: option.splits)
  ultimately show ?thesis using d(3) sd by simp
qed

lemma inner_tail_termDetect:
  "termDetect (inner_tail E old s)
     = localTermination E (old \<noteq> stat_iterations s) (termDetect s)"
  by (simp add: inner_tail_def Let_def prim)

lemma inv_go_inner:
  assumes "\<forall>w t. I t \<longrightarrow> I (localTermination E w t)"
  shows "go_inner E ca il b fuel old s = (st, old', s') \<Longrightarrow> I (termDetect s) \<Longrightarrow> I (termDetect s')"
proof (induction fuel arbitrary: old s)
  case 0
  then show ?case by simp
next
  case (Suc n)
  from Suc.prems(1) show ?case
  proof (cases rule: go_inner_Suc_cases)
    case stop
    then show ?thesis using passes_runSomeIterations [OF stop(1)] Suc.prems(2)
      by (simp add: passes_def)
  next
    case (last s1)
    have "I (termDetect s1)" using passes_runSomeIterations [OF last(1)] Suc.prems(2)
      by (simp add: passes_def)
    then show ?thesis using assms last(2) by (simp add: inner_tail_termDetect)
  next
    case (again s1)
    have "I (termDetect s1)" using passes_runSomeIterations [OF again(1)] Suc.prems(2)
      by (simp add: passes_def)
    then have "I (termDetect (inner_tail E old s1))" using assms by (simp add: inner_tail_termDetect)
    then show ?thesis using Suc.IH [OF again(2)] by simp
  qed
qed

lemma inv_go_outer:
  assumes "\<forall>w t. I t \<longrightarrow> I (localTermination E w t)" "\<forall>t. I t \<longrightarrow> I (initializeThread E t)"
    "\<forall>t. I t \<longrightarrow> I (barrier_wait E t)"
  shows "go_outer E ca il b fuel old s = (st, s') \<Longrightarrow> I (termDetect s) \<Longrightarrow> I (termDetect s')"
proof (induction fuel arbitrary: old s)
  case 0
  then show ?case by simp
next
  case (Suc n)
  from Suc.prems(1) show ?case
  proof (cases rule: go_outer_Suc_cases)
    case (stop old1)
    then show ?thesis using inv_go_inner [OF assms(1) stop(1)] Suc.prems(2) by simp
  next
    case (exit old1 s1)
    then show ?thesis using inv_go_inner [OF assms(1) exit(1)] Suc.prems(2) by simp
  next
    case (again old1 s1)
    have "I (termDetect s1)" using inv_go_inner [OF assms(1) again(1)] Suc.prems(2) by simp
    then have "I (termDetect (outer_tail E s1))" using assms(2,3) by (simp add: outer_tail_def prim)
    then show ?thesis using Suc.IH [OF again(4)] by simp
  qed
qed

lemma inv_go:
  assumes "\<forall>w t. I t \<longrightarrow> I (localTermination E w t)" "\<forall>t. I t \<longrightarrow> I (initializeThread E t)"
    "\<forall>t. I t \<longrightarrow> I (barrier_wait E t)"
    and "go E ca il fuel s = (st, s')" "I (termDetect s)"
  shows "I (termDetect s')"
proof -
  from assms(4) obtain s4 where go4: "go_outer E ca il fuel fuel 0 (go_setup E ca s) = (st, s4)"
    and s': "s' = go_finish E ca st s4" by (rule go_cases)
  have "I (termDetect (go_setup E ca s))" using assms(5) by (simp add: go_setup_facts)
  from inv_go_outer [OF assms(1,2,3) go4 this] show ?thesis by (simp add: s' go_finish_facts)
qed

lemma go_Finished:
  assumes "go E ca il fuel s = (Finished, s')"
  shows "globalTermination E (termDetect s') \<or> (needsBreak (cfg E) \<and> broke s')"
    and "checkEmpty E s' \<or> (needsBreak (cfg E) \<and> broke s')"
proof -
  from assms obtain s4 where go4: "go_outer E ca il fuel fuel 0 (go_setup E ca s) = (Finished, s4)"
    and s': "s' = go_finish E ca Finished s4" by (rule go_cases)
  have eq: "checkEmpty E s' = checkEmpty E s4" "termDetect s' = termDetect s4" "broke s' = broke s4"
    by (simp_all add: s' go_finish_facts checkEmpty_def split: option.splits)
  from go_outer_Finished [OF go4]
  show "globalTermination E (termDetect s') \<or> (needsBreak (cfg E) \<and> broke s')"
    and "checkEmpty E s' \<or> (needsBreak (cfg E) \<and> broke s')"
    unfolding eq by simp_all
qed

text \<open>
  C3. In every run of \<^verbatim>\<open>go\<close>, whether its loops are cut by their fuel or not, the calls
  of the worker keep to the protocol of the worker loop: \<^verbatim>\<open>checkEmpty\<close> is called only
  after \<^verbatim>\<open>globalTermination()\<close>, and after a \<^verbatim>\<open>checkEmpty\<close> the worker enters a queue
  loop again only after \<^verbatim>\<open>initializeThread\<close> and \<^verbatim>\<open>barrier.wait\<close>, in this order. When
  \<^verbatim>\<open>go\<close> returns, the last of these calls were \<^verbatim>\<open>globalTermination()\<close> and
  \<^verbatim>\<open>checkEmpty\<close>, with the answers they give in the state \<^verbatim>\<open>go\<close> returns in: there
  \<^verbatim>\<open>globalTermination()\<close> is true or break is enabled and the flag is set, and
  \<^verbatim>\<open>checkEmpty\<close> is true or break is enabled and the flag is set; \<^verbatim>\<open>checkEmpty\<close> is
  true for a worklist without \<^verbatim>\<open>empty()\<close>, and what \<^verbatim>\<open>empty()\<close> answers for a
  worklist that has it. A worker does not leave on its own account, however little work
  it found: without break, \<^verbatim>\<open>go\<close> does not return as long as the termination detector
  is in a condition \<open>I\<close> in which it does not report global termination and which the
  calls of this worker (\<^verbatim>\<open>localTermination\<close>, \<^verbatim>\<open>initializeThread\<close>, \<^verbatim>\<open>barrier.wait\<close>)
  cannot end, such as another worker that has not reported to be quiet. When the inner
  loop has
  finished, \<^verbatim>\<open>checkEmpty\<close> is false and break is not requested, the outer loop goes on
  from the state in which the worker has called \<^verbatim>\<open>checkEmpty\<close>, \<^verbatim>\<open>initializeThread\<close>
  and \<^verbatim>\<open>barrier.wait\<close>: the termination detector has been re-initialized and the
  barrier passed, and worklist and break flag are as they were.
\<close>

theorem worker_exit:
  assumes "go E ca il fuel s = (st, s')"
  shows "(\<exists>ph. protocol Ready (since s s') = Some ph
            \<and> (st = Finished \<longrightarrow>
                  ph = Checked (globalTermination E (termDetect s')) (checkEmpty E s')))
         \<and> (st = Finished \<longrightarrow>
               (globalTermination E (termDetect s') \<or> (needsBreak (cfg E) \<and> broke s'))
               \<and> (checkEmpty E s' \<or> (needsBreak (cfg E) \<and> broke s')))
         \<and> (wl_empty E = None \<longrightarrow> checkEmpty E s')
         \<and> (\<forall>f. wl_empty E = Some f \<longrightarrow> checkEmpty E s' = f (wl s'))
         \<and> ((\<forall>w t. I t \<longrightarrow> I (localTermination E w t))
              \<and> (\<forall>t. I t \<longrightarrow> I (initializeThread E t)) \<and> (\<forall>t. I t \<longrightarrow> I (barrier_wait E t))
              \<and> (\<forall>t. I t \<longrightarrow> \<not> globalTermination E t) \<and> I (termDetect s)
              \<and> \<not> needsBreak (cfg E) \<longrightarrow> st \<noteq> Finished)
         \<and> (go_inner E ca il b b old z = (Finished, old1, z1) \<and> \<not> checkEmpty E z1
                \<and> \<not> (needsBreak (cfg E) \<and> broke z1) \<longrightarrow>
              (\<exists>z2. go_outer E ca il b (Suc n) old z = go_outer E ca il b n old1 z2
                 \<and> trace z2 = trace z1 @ [CheckEmpty False, InitializeThread, BarrierWait]
                 \<and> termDetect z2 = barrier_wait E (initializeThread E (termDetect z1))
                 \<and> wl z2 = wl z1 \<and> broke z2 = broke z1))"
proof -
  have 1: "\<exists>ph. protocol Ready (since s s') = Some ph
            \<and> (st = Finished \<longrightarrow>
                  ph = Checked (globalTermination E (termDetect s')) (checkEmpty E s'))"
    using assms by (rule protocol_go)
  have 2: "st = Finished \<longrightarrow>
               (globalTermination E (termDetect s') \<or> (needsBreak (cfg E) \<and> broke s'))
               \<and> (checkEmpty E s' \<or> (needsBreak (cfg E) \<and> broke s'))"
    using go_Finished [of E ca il fuel s s'] assms by blast
  have 3: "(wl_empty E = None \<longrightarrow> checkEmpty E s')
      \<and> (\<forall>f. wl_empty E = Some f \<longrightarrow> checkEmpty E s' = f (wl s'))"
    by (simp add: checkEmpty_def)
  have 4: "(\<forall>w t. I t \<longrightarrow> I (localTermination E w t))
              \<and> (\<forall>t. I t \<longrightarrow> I (initializeThread E t)) \<and> (\<forall>t. I t \<longrightarrow> I (barrier_wait E t))
              \<and> (\<forall>t. I t \<longrightarrow> \<not> globalTermination E t) \<and> I (termDetect s)
              \<and> \<not> needsBreak (cfg E) \<longrightarrow> st \<noteq> Finished"
  proof (intro impI notI, elim conjE)
    assume a: "\<forall>w t. I t \<longrightarrow> I (localTermination E w t)" "\<forall>t. I t \<longrightarrow> I (initializeThread E t)"
      "\<forall>t. I t \<longrightarrow> I (barrier_wait E t)" "\<forall>t. I t \<longrightarrow> \<not> globalTermination E t"
      "I (termDetect s)" "\<not> needsBreak (cfg E)" and f: "st = Finished"
    have "I (termDetect s')" using inv_go [OF a(1,2,3) assms a(5)] .
    then have "\<not> globalTermination E (termDetect s')" using a(4) by blast
    then show False using 2 f a(6) by blast
  qed
  have 5: "go_inner E ca il b b old z = (Finished, old1, z1) \<and> \<not> checkEmpty E z1
                \<and> \<not> (needsBreak (cfg E) \<and> broke z1) \<longrightarrow>
              (\<exists>z2. go_outer E ca il b (Suc n) old z = go_outer E ca il b n old1 z2
                 \<and> trace z2 = trace z1 @ [CheckEmpty False, InitializeThread, BarrierWait]
                 \<and> termDetect z2 = barrier_wait E (initializeThread E (termDetect z1))
                 \<and> wl z2 = wl z1 \<and> broke z2 = broke z1)"
    by (auto simp: Let_def emit_def term_initializeThread_def barrier_wait_call_def)
  show ?thesis using 1 2 3 4 5 by blast
qed

lemma push_each_simps [simp]:
  "push_each E [] w = w"
  "push_each E (x # xs) w = push_each E xs (wl_push E [x] w)"
  "push_each E (xs @ ys) w = push_each E ys (push_each E xs w)"
  by (simp_all add: push_each_def)

lemma wl_push_push_each:
  assumes "bulk_push_is_loop E"
  shows "xs \<noteq> [] \<Longrightarrow> wl_push E xs w = push_each E xs w"
proof (induction xs arbitrary: w)
  case Nil
  then show ?case by simp
next
  case (Cons x xs)
  show ?case
  proof (cases "xs = []")
    case True
    then show ?thesis by simp
  next
    case False
    have "wl_push E ([x] @ xs) w = wl_push E xs (wl_push E [x] w)"
      using assms unfolding bulk_push_is_loop_def by blast
    then show ?thesis using Cons.IH [OF False] by simp
  qed
qed

lemma vwl_user_push:
  assumes "bulk_push_is_loop E"
  shows "vwl E (user_push E v s) = wl_push E [v] (vwl E s)"
  using wl_push_push_each [OF assms, of "pushBuffer s @ [v]" "wl s"]
  by (simp add: user_push_def fastPushBack_def Let_def vwl_def)

lemma user_push_frame:
  "world (user_push E v s) = world s" "fastPushBackSet (user_push E v s) = fastPushBackSet s"
  by (simp_all add: user_push_def fastPushBack_def Let_def)

lemma fold_user_push_frame:
  "world (fold (user_push E) xs s) = world s
   \<and> fastPushBackSet (fold (user_push E) xs s) = fastPushBackSet s"
  by (induction xs arbitrary: s) (simp_all add: user_push_frame)

lemma vwl_fold_user_push:
  assumes "bulk_push_is_loop E"
  shows "vwl E (fold (user_push E) xs s) = push_each E xs (vwl E s)"
  by (induction xs arbitrary: s) (simp_all add: vwl_user_push [OF assms])

lemma call_function_vwl:
  assumes "bulk_push_is_loop E" "call_function E v s = (sg, s')"
  shows "vwl E s' = push_each E (op_pushes (origFunction E v (world s))) (vwl E s)"
    and "world s' = op_world (origFunction E v (world s))"
    and "sg = op_signal (origFunction E v (world s))"
    and "fastPushBackSet s' = fastPushBackSet s"
proof -
  define r where "r = origFunction E v (world s)"
  define s2 where "s2 = (emit (Apply v (op_signal r)) s)\<lparr>world := op_world r\<rparr>"
  define s3 where "s3 = fold (user_push E) (op_pushes r) s2"
  define s4 where "s4 = s3\<lparr>allocated := allocated s3 + op_allocs r\<rparr>"
  have s': "s' = (if op_break r then breakLoop s4 else s4)" and sg: "sg = op_signal r"
    using assms(2) unfolding call_function_def Let_def r_def s2_def s3_def s4_def by auto
  have v3: "vwl E s3 = push_each E (op_pushes r) (vwl E s2)"
    unfolding s3_def by (rule vwl_fold_user_push [OF assms(1)])
  have f3: "world s3 = world s2" "fastPushBackSet s3 = fastPushBackSet s2"
    using fold_user_push_frame [of E "op_pushes r" s2] by (simp_all add: s3_def)
  have v2: "vwl E s2 = vwl E s" by (simp add: vwl_def s2_def)
  have v': "vwl E s' = vwl E s3" by (simp add: s' s4_def vwl_def breakLoop_def)
  show "vwl E s' = push_each E (op_pushes (origFunction E v (world s))) (vwl E s)"
    using v' v3 v2 by (simp add: r_def)
  show "world s' = op_world (origFunction E v (world s))"
    using f3 by (simp add: s' s4_def breakLoop_def s2_def r_def)
  show "sg = op_signal (origFunction E v (world s))" using sg by (simp add: r_def)
  show "fastPushBackSet s' = fastPushBackSet s"
    using f3 by (simp add: s' s4_def breakLoop_def s2_def)
qed

lemma commitIteration_vwl:
  assumes "bulk_push_is_loop E"
  shows "world (commitIteration E s) = world s"
    and "fastPushBackSet (commitIteration E s) = fastPushBackSet s"
    and "needsPush (cfg E) \<Longrightarrow> wl (commitIteration E s) = vwl E s"
    and "needsPush (cfg E) \<Longrightarrow> pushBuffer (commitIteration E s) = []"
    and "\<not> needsPush (cfg E) \<Longrightarrow> wl (commitIteration E s) = wl s"
  using wl_push_push_each [OF assms, of "pushBuffer s" "wl s"]
  by (simp_all add: commitIteration_def Let_def vwl_def resetAlloc_def)

lemma doProcess_Returned:
  assumes "bulk_push_is_loop E" "staging_ok E s" "doProcess E v s = (sg, s')"
  shows "sg = op_signal (origFunction E v (world s))"
    and "world s' = op_world (origFunction E v (world s))"
    and "sg = Returned \<Longrightarrow> staging_ok E s'"
    and "sg = Returned \<Longrightarrow> wl s' =
           (if needsPush (cfg E) then push_each E (op_pushes (origFunction E v (world s))) (wl s)
            else wl s)"
proof -
  define s1 where "s1 = (if needsAborts (cfg E) then emit StartIteration s else s)"
  define s2 where "s2 = s1\<lparr>stat_iterations := stat_iterations s1 + 1\<rparr>"
  obtain sg3 s3 where cf: "call_function E v s2 = (sg3, s3)" by (cases "call_function E v s2")
  have w2: "world s2 = world s" "wl s2 = wl s" "pushBuffer s2 = pushBuffer s"
    "fastPushBackSet s2 = fastPushBackSet s" by (simp_all add: s2_def s1_def)
  have v2: "vwl E s2 = vwl E s" using w2 by (simp add: vwl_def)
  note c = call_function_vwl [OF assms(1) cf, unfolded w2 v2]
  have res: "sg = sg3" "s' = (if sg3 = Returned then commitIteration E s3 else s3)"
    using assms(3) cf by (cases sg3; auto simp: doProcess_def Let_def s2_def s1_def)+
  show "sg = op_signal (origFunction E v (world s))" using c(3) res(1) by simp
  show "world s' = op_world (origFunction E v (world s))"
    using c(2) res(2) commitIteration_vwl(1) [OF assms(1)] by simp
  show "staging_ok E s'" if "sg = Returned"
    using that res c(4) assms(2) commitIteration_vwl(2,4) [OF assms(1), of s3]
    by (auto simp: staging_ok_def)
  show "wl s' = (if needsPush (cfg E)
      then push_each E (op_pushes (origFunction E v (world s))) (wl s) else wl s)"
    if "sg = Returned"
  proof (cases "needsPush (cfg E)")
    case True
    then have "vwl E s = wl s" using assms(2) by (simp add: staging_ok_def vwl_def)
    then show ?thesis using that res True c(1) commitIteration_vwl(3) [OF assms(1) True, of s3]
      by simp
  next
    case False
    then have n: "\<not> fastPushBackSet s2" using assms(2) w2 by (simp add: staging_ok_def)
    have "wl s3 = wl s" using call_function_no_spill(1) [OF cf n] w2 by simp
    then show ?thesis using that res False commitIteration_vwl(5) [OF assms(1) False, of s3]
      by simp
  qed
qed

lemma runQueueSimple_loop_refines:
  assumes "bulk_push_is_loop E"
  shows "staging_ok E s \<Longrightarrow> runQueueSimple_loop E fuel s = (st, s') \<Longrightarrow> st \<noteq> UncaughtConflict \<Longrightarrow>
     sequential_loop E fuel (wl s) (world s) = (st, wl s', world s')
     \<and> staging_ok E s'
     \<and> (st = Finished \<longrightarrow> (\<exists>w. wl_pop E w = (None, wl s')))"
proof (induction fuel arbitrary: s)
  case 0
  then show ?case by auto
next
  case (Suc fuel)
  obtain p w where pp: "wl_pop E (wl s) = (p, w)" by (cases "wl_pop E (wl s)")
  show ?case
  proof (cases p)
    case None
    then have "st = Finished \<and> s' = s\<lparr>wl := w\<rparr>" using Suc.prems(2) pp by simp
    then show ?thesis using pp None Suc.prems(1) by (auto simp: staging_ok_def)
  next
    case (Some v)
    let ?s0 = "emit (WlPop v) (s\<lparr>wl := w\<rparr>)"
    obtain sg s2 where dp: "doProcess E v ?s0 = (sg, s2)" by (cases "doProcess E v ?s0")
    have ok0: "staging_ok E ?s0" using Suc.prems(1) by (simp add: staging_ok_def)
    have sg: "sg = Returned" using Suc.prems(2,3) pp Some dp by (cases sg) auto
    note d = doProcess_Returned [OF assms ok0 dp]
    have rest: "runQueueSimple_loop E fuel s2 = (st, s')"
      using Suc.prems(2) pp Some dp sg by simp
    from Suc.IH [OF d(3) [OF sg] rest Suc.prems(3)]
    have ih: "sequential_loop E fuel (wl s2) (world s2) = (st, wl s', world s')"
      "staging_ok E s'" "st = Finished \<longrightarrow> (\<exists>w. wl_pop E w = (None, wl s'))" by auto
    have "sequential_loop E (Suc fuel) (wl s) (world s) = sequential_loop E fuel (wl s2) (world s2)"
      using pp Some d(1,2) d(4) [OF sg] sg by (simp add: Let_def push_each_def)
    then show ?thesis using ih by simp
  qed
qed

lemma idle_trans: "idle E Finished s s1 \<Longrightarrow> idle E st s1 s2 \<Longrightarrow> idle E st s s2"
  by (auto simp: idle_def)

lemma idle_bookkeeping: "bookkeeping s s' \<Longrightarrow> idle E Finished s s'"
  by (simp add: idle_def bookkeeping_frame)

lemma idle_runQueueSimple: "runQueueSimple E fuel s = (st, s') \<Longrightarrow> idle E st s s'"
  by (cases fuel) (auto simp: idle_def runQueueSimple_def)

lemma idle_runSomeIterations:
  "\<not> needsBreak (cfg E) \<Longrightarrow> runSomeIterations E False il b s = (st, s') \<Longrightarrow> idle E st s s'"
  by (simp add: runSomeIterations_def idle_runQueueSimple)

lemma runQueueSimple_refines:
  assumes "bulk_push_is_loop E" "staging_ok E s" "runQueueSimple E fuel s = (Finished, s')"
  shows "sequential_loop E fuel (wl s) (world s) = (Finished, wl s', world s')"
    and "\<exists>w. wl_pop E w = (None, wl s')"
proof -
  have ok: "staging_ok E (emit RunQueueSimple s)" using assms(2) by (simp add: staging_ok_def)
  from runQueueSimple_loop_refines [OF assms(1) ok assms(3) [unfolded runQueueSimple_def]]
  show "sequential_loop E fuel (wl s) (world s) = (Finished, wl s', world s')"
    and "\<exists>w. wl_pop E w = (None, wl s')" by simp_all
qed

lemma go_refines:
  assumes nb: "\<not> needsBreak (cfg E)" and run: "go E False il fuel s = (Finished, s')"
    and bp: "bulk_push_is_loop E" and ds: "drained_stays E"
  shows "sequential_loop E fuel (wl s) (world s) = (Finished, wl s', world s')"
proof -
  let ?s3 = "go_setup E False s"
  from run obtain s4 where go4: "go_outer E False il fuel fuel 0 ?s3 = (Finished, s4)"
    and s': "s' = go_finish E False Finished s4" by (rule go_cases)
  have "liftable (idle E) E False il fuel"
    unfolding liftable_def
  proof (intro conjI allI impI)
    fix s1 :: "('a, 'b, 'c, 'd) state"
    show "idle E OutOfFuel s1 s1" by (simp add: idle_def)
  next
    fix st and s1 s2 s3 :: "('a, 'b, 'c, 'd) state"
    assume "idle E Finished s1 s2" "idle E st s2 s3"
    then show "idle E st s1 s3" by (rule idle_trans)
  next
    fix st s1 s2
    assume "runSomeIterations E False il fuel s1 = (st, s2)"
    then show "idle E st s1 s2" by (rule idle_runSomeIterations [OF nb])
  next
    fix s1 s2 :: "('a, 'b, 'c, 'd) state"
    assume "bookkeeping s1 s2"
    then show "idle E Finished s1 s2" by (rule idle_bookkeeping)
  qed
  then have "\<exists>sA. runSomeIterations E False il fuel ?s3 = (Finished, sA) \<and> idle E Finished sA s4"
    using go4 by (rule go_outer_first)
  then obtain sA where a: "runQueueSimple E fuel ?s3 = (Finished, sA)" and i: "idle E Finished sA s4"
    using nb by (auto simp: runSomeIterations_def)
  have ok: "staging_ok E ?s3" by (simp add: staging_ok_def go_setup_facts)
  from runQueueSimple_refines [OF bp ok a]
  have seq: "sequential_loop E fuel (wl s) (world s) = (Finished, wl sA, world sA)"
    and "\<exists>w. wl_pop E w = (None, wl sA)" by (simp_all add: go_setup_facts)
  then have "wl_pop E (wl sA) = (None, wl sA)" using ds unfolding drained_stays_def by blast
  then have "wl s4 = wl sA \<and> world s4 = world sA" using i by (simp add: idle_def)
  then show ?thesis using seq by (simp add: s' go_finish_facts)
qed

lemma no_cancel_go:
  assumes nb: "\<not> needsBreak (cfg E)" and run: "go E False il fuel s = (st, s')"
  shows "CancelIteration \<notin> set (since s s')"
proof -
  let ?s3 = "go_setup E False s"
  from run obtain s4 where go4: "go_outer E False il fuel fuel 0 ?s3 = (st, s4)"
    and s': "s' = go_finish E False st s4" by (rule go_cases)
  have iter: "no_cancel st1 s1 s2" if "runSomeIterations E False il fuel s1 = (st1, s2)" for st1 s1 s2
  proof -
    from that nb have "runQueueSimple_loop E fuel (emit RunQueueSimple s1) = (st1, s2)"
      by (simp add: runSomeIterations_def runQueueSimple_def)
    with ran_runQueueSimple_loop [where E = E and fuel = fuel and s = "emit RunQueueSimple s1"]
    obtain k where "ran k (pending st1) (emit RunQueueSimple s1) s2" by auto
    then show ?thesis by (auto simp: ran_def no_cancel_def)
  qed
  have ctl: "no_cancel Finished s1 s2" if "bookkeeping s1 s2" for s1 s2 :: "('a, 'b, 'c, 'd) state"
    using bookkeeping_ran [OF that] by (auto simp: ran_def no_cancel_def)
  have tr: "no_cancel st2 s1 s3" if "no_cancel Finished s1 s2" "no_cancel st2 s2 s3"
    for st2 and s1 s2 s3 :: "('a, 'b, 'c, 'd) state"
    using that by (auto simp: no_cancel_def)
  have rf: "no_cancel OutOfFuel s1 s1" for s1 :: "('a, 'b, 'c, 'd) state"
    by (simp add: no_cancel_def)
  have "liftable no_cancel E False il fuel"
    unfolding liftable_def
  proof (intro conjI allI impI)
    fix s1 :: "('a, 'b, 'c, 'd) state"
    show "no_cancel OutOfFuel s1 s1" by (rule rf)
  next
    fix st and s1 s2 s3 :: "('a, 'b, 'c, 'd) state"
    assume "no_cancel Finished s1 s2" "no_cancel st s2 s3"
    then show "no_cancel st s1 s3" by (rule tr)
  next
    fix st s1 s2
    assume "runSomeIterations E False il fuel s1 = (st, s2)"
    then show "no_cancel st s1 s2" by (rule iter)
  next
    fix s1 s2 :: "('a, 'b, 'c, 'd) state"
    assume "bookkeeping s1 s2"
    then show "no_cancel Finished s1 s2" by (rule ctl)
  qed
  then have "no_cancel st ?s3 s4" using go4 by (rule go_outer_lift)
  then obtain d where d: "trace s4 = trace ?s3 @ d" "CancelIteration \<notin> set d"
    by (auto simp: no_cancel_def)
  from setup_events [of E False s] obtain d0 where d0: "trace ?s3 = trace s @ d0" "n_aborted d0 = 0"
    by blast
  have "\<exists>d5. trace s' = trace s4 @ d5 \<and> n_aborted d5 = 0"
    using finish_events [of E False st s4] by (auto simp: s')
  then obtain d5 where d5: "trace s' = trace s4 @ d5" "n_aborted d5 = 0" by blast
  have "since s s' = d0 @ d @ d5" using d0(1) d(1) d5(1) by (simp add: since_def)
  moreover have "CancelIteration \<notin> set d0" "CancelIteration \<notin> set d5"
    using d0(2) d5(2) by (auto simp: n_aborted_def filter_empty_conv)
  ultimately show ?thesis using d(2) by simp
qed

lemma pops_append [simp]: "pops (a @ b) = pops a @ pops b"
  by (induction a rule: pops.induct) simp_all

lemma apply_in_order_simps [simp]:
  "apply_in_order E g [] = g"
  "apply_in_order E g (v # vs) = apply_in_order E (op_world (origFunction E v g)) vs"
  "apply_in_order E g (vs @ ws) = apply_in_order E (apply_in_order E g vs) ws"
  by (simp_all add: apply_in_order_def)

lemma silent_refl: "silent s s"
  by (simp add: silent_def)

lemma silent_trans: "silent s s1 \<Longrightarrow> silent s1 s2 \<Longrightarrow> silent s s2"
  by (auto simp: silent_def)

lemma silent_in_order: "silent s s' \<Longrightarrow> in_order E st s s'"
  by (auto simp: silent_def in_order_def)

lemma in_order_trans: "in_order E st1 s s1 \<Longrightarrow> in_order E st s1 s2 \<Longrightarrow> in_order E st s s2"
  by (auto simp: in_order_def)

lemma silent_user_push: "silent s (user_push E v s)"
  by (simp add: silent_def user_push_def fastPushBack_def Let_def emit_def)

lemma silent_fold_user_push: "silent s (fold (user_push E) xs s)"
proof (induction xs arbitrary: s)
  case Nil
  show ?case by (simp add: silent_refl)
next
  case (Cons x xs)
  show ?case using silent_trans [OF silent_user_push Cons.IH] by simp
qed

lemma silent_commitIteration: "silent s (commitIteration E s)"
  by (simp add: silent_def commitIteration_def Let_def prim)

lemma bookkeeping_silent: "bookkeeping s s' \<Longrightarrow> silent s s'"
proof -
  have ctl: "\<forall>e \<in> set es. is_ctl e \<Longrightarrow> pops es = [] \<and> applied es = []" for es :: "'a event list"
  proof (induction es)
    case Nil
    show ?case by simp
  next
    case (Cons e es)
    then show ?case by (cases e) auto
  qed
  assume "bookkeeping s s'"
  then show ?thesis using ctl by (auto simp: bookkeeping_def silent_def)
qed

lemma call_function_in_order:
  assumes "call_function E v s = (sg, s')"
  shows "\<exists>d. trace s' = trace s @ d \<and> pops d = [] \<and> applied d = [v]"
    and "world s' = op_world (origFunction E v (world s))"
proof -
  define r where "r = origFunction E v (world s)"
  define s2 where "s2 = (emit (Apply v (op_signal r)) s)\<lparr>world := op_world r\<rparr>"
  define s3 where "s3 = fold (user_push E) (op_pushes r) s2"
  define s4 where "s4 = s3\<lparr>allocated := allocated s3 + op_allocs r\<rparr>"
  have s': "s' = (if op_break r then breakLoop s4 else s4)"
    using assms unfolding call_function_def Let_def r_def s2_def s3_def s4_def by auto
  from silent_fold_user_push [of s2 E "op_pushes r"] obtain d where
    d: "trace s3 = trace s2 @ d" "pops d = []" "applied d = []" "world s3 = world s2"
    by (auto simp: silent_def s3_def)
  have t: "trace s' = trace s @ (Apply v (op_signal r) # d)"
    using d(1) by (simp add: s' s4_def s2_def breakLoop_def)
  show "\<exists>d. trace s' = trace s @ d \<and> pops d = [] \<and> applied d = [v]"
    using t d(2,3) by (intro exI [of _ "Apply v (op_signal r) # d"]) simp
  show "world s' = op_world (origFunction E v (world s))"
    using d(4) by (simp add: s' s4_def s2_def breakLoop_def r_def)
qed

lemma doProcess_in_order:
  assumes "doProcess E v s = (sg, s')"
  shows "\<exists>d. trace s' = trace s @ d \<and> pops d = [] \<and> applied d = [v]"
    and "world s' = op_world (origFunction E v (world s))"
proof -
  define s1 where "s1 = (if needsAborts (cfg E) then emit StartIteration s else s)"
  define s2 where "s2 = s1\<lparr>stat_iterations := stat_iterations s1 + 1\<rparr>"
  obtain sg3 s3 where cf: "call_function E v s2 = (sg3, s3)" by (cases "call_function E v s2")
  have a: "\<exists>d. trace s2 = trace s @ d \<and> pops d = [] \<and> applied d = []" "world s2 = world s"
    by (simp_all add: s2_def s1_def)
  have res: "s' = (if sg3 = Returned then commitIteration E s3 else s3)"
    using assms cf by (cases sg3) (auto simp: doProcess_def Let_def s2_def s1_def)
  have c: "silent s3 s'" using res silent_commitIteration [of s3 E] by (simp add: silent_refl)
  from a obtain d0 where d0: "trace s2 = trace s @ d0" "pops d0 = []" "applied d0 = []" by blast
  from call_function_in_order(1) [OF cf] obtain d1 where
    d1: "trace s3 = trace s2 @ d1" "pops d1 = []" "applied d1 = [v]" by blast
  from c obtain d2 where d2: "trace s' = trace s3 @ d2" "pops d2 = []" "applied d2 = []"
    "world s' = world s3" by (auto simp: silent_def)
  show "\<exists>d. trace s' = trace s @ d \<and> pops d = [] \<and> applied d = [v]"
    using d0 d1 d2 by (intro exI [of _ "d0 @ d1 @ d2"]) simp
  show "world s' = op_world (origFunction E v (world s))"
    using d2(4) call_function_in_order(2) [OF cf] a(2) by simp
qed

lemma in_order_pop:
  assumes "doProcess E v (emit (WlPop v) s0) = (sg, s')" "world s0 = world s" "trace s0 = trace s"
  shows "in_order E st s s'"
proof -
  from doProcess_in_order [OF assms(1)] obtain d where
    d: "trace s' = trace (emit (WlPop v) s0) @ d" "pops d = []" "applied d = [v]"
    and w: "world s' = op_world (origFunction E v (world (emit (WlPop v) s0)))" by blast
  have "trace s' = trace s @ (WlPop v # d)" using d(1) assms(3) by simp
  moreover have "pops (WlPop v # d) = applied (WlPop v # d)" using d(2,3) by simp
  moreover have "world s' = apply_in_order E (world s) (applied (WlPop v # d))"
    using w d(3) assms(2) by simp
  ultimately show ?thesis unfolding in_order_def by blast
qed

lemma in_order_runQueue_loop:
  "in_order E st s (loop_state (runQueue_loop E SharedWL limit fuel num s))"
proof (induction fuel arbitrary: num s)
  case 0
  show ?case by (simp add: silent_in_order silent_refl)
next
  case (Suc fuel)
  show ?case
  proof (cases "limit \<noteq> 0 \<and> \<not> num < limit")
    case True
    then show ?thesis by (simp add: silent_in_order silent_refl)
  next
    case False
    obtain p w where pp: "wl_pop E (wl s) = (p, w)" by (cases "wl_pop E (wl s)")
    show ?thesis
    proof (cases p)
      case None
      then have "runQueue_loop E SharedWL limit (Suc fuel) num s = Drained (s\<lparr>wl := w\<rparr>)"
        using False pp by (auto simp: pop_def)
      then show ?thesis by (simp add: in_order_def)
    next
      case (Some v)
      let ?s0 = "emit (WlPop v) (s\<lparr>wl := w\<rparr>)"
      have po: "pop E SharedWL s = (Some (Val v), ?s0)" using pp Some by (simp add: pop_def)
      obtain sg s2 where dp: "doProcess E v ?s0 = (sg, s2)" by (cases "doProcess E v ?s0")
      have one: "in_order E st s s2" using dp by (rule in_order_pop) simp_all
      show ?thesis
      proof (cases sg)
        case ConflictFlag
        then have "runQueue_loop E SharedWL limit (Suc fuel) num s = Thrown (Val v) s2"
          using False po dp by (auto simp: Let_def)
        then show ?thesis using one by simp
      next
        case Returned
        let ?n = "if limit \<noteq> 0 then num + 1 else num"
        have "runQueue_loop E SharedWL limit (Suc fuel) num s
            = runQueue_loop E SharedWL limit fuel ?n s2"
          using False po dp Returned by (auto simp: Let_def)
        then show ?thesis using in_order_trans [OF one Suc.IH [of s2 ?n]] by simp
      qed
    qed
  qed
qed

lemma silent_abortIteration: "abortIteration E p s = (st, s') \<Longrightarrow> silent s s'"
  by (auto simp: abortIteration_def Let_def silent_def prim split: if_splits)

lemma in_order_runQueue:
  assumes "runQueue E fuel limit SharedWL s = (st, s')"
  shows "in_order E st s s'"
proof -
  define s0 where "s0 = emit (RunQueue SharedWL limit) s"
  define r where "r = runQueue_loop E SharedWL limit fuel 0 s0"
  have e: "in_order E st s s0" by (rule silent_in_order) (simp add: s0_def silent_def)
  have l: "in_order E st s0 (loop_state r)" unfolding r_def by (rule in_order_runQueue_loop)
  have "silent (loop_state r) s'"
  proof (cases r)
    case (Drained s1)
    then show ?thesis using assms by (simp add: runQueue_def r_def s0_def silent_refl)
  next
    case (Exhausted s1)
    then show ?thesis using assms by (simp add: runQueue_def r_def s0_def silent_refl)
  next
    case (Thrown p s1)
    then have "abortIteration E p s1 = (st, s')"
      using assms by (simp add: runQueue_def r_def s0_def)
    then show ?thesis using Thrown by (simp add: silent_abortIteration)
  qed
  then have "in_order E st (loop_state r) s'" by (rule silent_in_order)
  then show ?thesis using e l in_order_trans by blast
qed

lemma in_order_runQueueSimple_loop:
  "in_order E st s (snd (runQueueSimple_loop E fuel s))"
proof (induction fuel arbitrary: s)
  case 0
  show ?case by (simp add: silent_in_order silent_refl)
next
  case (Suc fuel)
  obtain p w where pp: "wl_pop E (wl s) = (p, w)" by (cases "wl_pop E (wl s)")
  show ?case
  proof (cases p)
    case None
    then show ?thesis using pp by (simp add: in_order_def)
  next
    case (Some v)
    let ?s0 = "emit (WlPop v) (s\<lparr>wl := w\<rparr>)"
    obtain sg s2 where dp: "doProcess E v ?s0 = (sg, s2)" by (cases "doProcess E v ?s0")
    have one: "in_order E st s s2" using dp by (rule in_order_pop) simp_all
    show ?thesis
    proof (cases sg)
      case ConflictFlag
      then show ?thesis using pp Some dp one by simp
    next
      case Returned
      then show ?thesis using pp Some dp in_order_trans [OF one Suc.IH [of s2]] by simp
    qed
  qed
qed

lemma in_order_runSomeIterations:
  assumes "runSomeIterations E False il fuel s = (st, s')"
  shows "in_order E st s s'"
  using assms
proof (cases rule: runSomeIterations_cases)
  case simple
  have e: "in_order E st s (emit RunQueueSimple s)"
    by (rule silent_in_order) (simp add: silent_def)
  have "in_order E st (emit RunQueueSimple s) s'"
    using in_order_runQueueSimple_loop [of E st "emit RunQueueSimple s" fuel] simple(3)
    by (simp add: runQueueSimple_def)
  then show ?thesis using e in_order_trans by blast
next
  case stop
  then show ?thesis by (simp add: in_order_runQueue)
next
  case shared
  then show ?thesis by (simp add: in_order_runQueue)
next
  case (both s1)
  then show ?thesis by simp
qed

lemma in_order_go:
  assumes "go E False il fuel s = (st, s')"
  shows "in_order E st s s'"
proof -
  let ?s3 = "go_setup E False s"
  from assms obtain s4 where go4: "go_outer E False il fuel fuel 0 ?s3 = (st, s4)"
    and s': "s' = go_finish E False st s4" by (rule go_cases)
  have "liftable (in_order E) E False il fuel"
    unfolding liftable_def
  proof (intro conjI allI impI)
    fix s1 :: "('a, 'b, 'c, 'd) state"
    show "in_order E OutOfFuel s1 s1" by (simp add: silent_in_order silent_refl)
  next
    fix st and s1 s2 s3 :: "('a, 'b, 'c, 'd) state"
    assume "in_order E Finished s1 s2" "in_order E st s2 s3"
    then show "in_order E st s1 s3" by (rule in_order_trans)
  next
    fix st s1 s2
    assume "runSomeIterations E False il fuel s1 = (st, s2)"
    then show "in_order E st s1 s2" by (rule in_order_runSomeIterations)
  next
    fix s1 s2 :: "('a, 'b, 'c, 'd) state"
    assume "bookkeeping s1 s2"
    then show "in_order E Finished s1 s2" by (simp add: silent_in_order bookkeeping_silent)
  qed
  then have m: "in_order E st ?s3 s4" using go4 by (rule go_outer_lift)
  have a: "in_order E st s ?s3"
    by (rule silent_in_order) (simp add: silent_def go_setup_facts)
  have "silent s4 s'" by (simp add: s' silent_def go_finish_facts reports_def)
  then have "in_order E st s4 s'" by (rule silent_in_order)
  then show ?thesis using a m in_order_trans by blast
qed

lemma fifo_bulk_push: "bulk_push_is_loop (fifo_executor c f tp n)"
  by (simp add: bulk_push_is_loop_def fifo_executor_def)

lemma fifo_drained: "drained_stays (fifo_executor c f tp n)"
  by (auto simp: drained_stays_def fifo_executor_def split: list.splits)

text \<open>
  C7, as the code has it. \<open>couldAbort\<close> is \<open>needsAborts\<close> and more than one active
  thread. With one active thread the executor runs \<^verbatim>\<open>go<false, isLeader>\<close>; the only
  queue loop it enters is \<^verbatim>\<open>runQueueSimple\<close> when break is disabled, and
  \<^verbatim>\<open>runQueue<64>\<close> on the shared worklist when break is enabled. On both paths the
  operator is applied to exactly the items the worklist gave, in the order it gave
  them, and the data the operator works on are those that these applications leave,
  one after another. With break disabled no iteration is aborted, and when the run
  finishes, on a worklist whose bulk push is a loop of pushes and whose \<^verbatim>\<open>pop\<close> gives
  nothing again once it gave nothing, the worklist and the data the operator works on
  are those the sequential loop leaves.
\<close>

theorem single_thread_sequential:
  assumes "activeThreads E = 1" and "executor_call E fuel s = (st, s')"
  shows "couldAbort_of E = (needsAborts (cfg E) \<and> 1 < activeThreads E) \<and> \<not> couldAbort_of E
         \<and> executor_call E fuel s = go E False (isLeader (threadPool E)) fuel s
         \<and> set (calls (since s s'))
             \<subseteq> (if needsBreak (cfg E) then {RunQueue SharedWL 64} else {RunQueueSimple})
         \<and> applied (since s s') = pops (since s s')
         \<and> world s' = apply_in_order E (world s) (pops (since s s'))
         \<and> (\<not> needsBreak (cfg E) \<longrightarrow> CancelIteration \<notin> set (since s s'))
         \<and> (\<not> needsBreak (cfg E) \<and> st = Finished \<and> bulk_push_is_loop E \<and> drained_stays E \<longrightarrow>
              sequential_loop E fuel (wl s) (world s) = (Finished, wl s', world s'))"
proof -
  let ?il = "isLeader (threadPool E)"
  have ca: "\<not> couldAbort_of E" using assms(1) by (simp add: couldAbort_of_def)
  have eq: "executor_call E fuel s = go E False ?il fuel s" using ca by (simp add: executor_call_go)
  have g: "go E False ?il fuel s = (st, s')" using assms(2) eq by simp
  from tidy_go [OF g] obtain d where d: "trace s' = trace s @ d"
    "set (calls d) \<subseteq> allowed_calls E False ?il" by (auto simp: tidy_def)
  have sd: "since s s' = d" using d(1) by (rule since_append)
  have c: "set (calls (since s s'))
      \<subseteq> (if needsBreak (cfg E) then {RunQueue SharedWL 64} else {RunQueueSimple})"
    using d(2) unfolding sd by (auto simp: allowed_calls_def split: if_splits)
  from in_order_go [OF g] obtain d' where d': "trace s' = trace s @ d'"
    "pops d' = applied d'" "world s' = apply_in_order E (world s) (applied d')"
    unfolding in_order_def by blast
  have sd': "since s s' = d'" using d'(1) by (rule since_append)
  have o: "applied (since s s') = pops (since s s')"
    "world s' = apply_in_order E (world s) (pops (since s s'))"
    using d'(2,3) unfolding sd' by simp_all
  have n: "\<not> needsBreak (cfg E) \<longrightarrow> CancelIteration \<notin> set (since s s')"
    using no_cancel_go [OF _ g] by blast
  have r: "\<not> needsBreak (cfg E) \<and> st = Finished \<and> bulk_push_is_loop E \<and> drained_stays E \<longrightarrow>
      sequential_loop E fuel (wl s) (world s) = (Finished, wl s', world s')"
    using go_refines [of E ?il fuel s s'] g by blast
  show ?thesis using ca eq c o n r by (simp add: couldAbort_of_def)
qed

theorem single_thread_sequential_witness:
  "activeThreads single_executor = 1
   \<and> executor_call single_executor 6 single_start
       = (Finished, snd (executor_call single_executor 6 single_start))
   \<and> \<not> needsBreak (cfg single_executor) \<and> bulk_push_is_loop single_executor
   \<and> drained_stays single_executor
   \<and> sequential_loop single_executor 6 [2] 0 = (Finished, [], 3)
   \<and> wl (snd (executor_call single_executor 6 single_start)) = []
   \<and> world (snd (executor_call single_executor 6 single_start)) = 3
   \<and> set (calls (since single_start (snd (executor_call single_executor 6 single_start))))
       \<subseteq> {RunQueueSimple}
   \<and> applied (since single_start (snd (executor_call single_executor 6 single_start)))
       = pops (since single_start (snd (executor_call single_executor 6 single_start)))
   \<and> world (snd (executor_call single_executor 6 single_start))
       = apply_in_order single_executor 0
           (pops (since single_start (snd (executor_call single_executor 6 single_start))))"
proof -
  let ?r = "executor_call single_executor 6 single_start"
  have a: "activeThreads single_executor = 1" by (simp add: single_executor_def fifo_executor_def)
  have "fst ?r = Finished" by code_simp
  then have run: "?r = (Finished, snd ?r)" by (metis prod.collapse)
  have nb: "\<not> needsBreak (cfg single_executor)"
    by (simp add: single_executor_def fifo_executor_def all_flags_def)
  have bp: "bulk_push_is_loop single_executor" unfolding single_executor_def by (rule fifo_bulk_push)
  have ds: "drained_stays single_executor" unfolding single_executor_def by (rule fifo_drained)
  have w: "wl single_start = [2]" "world single_start = 0"
    by (simp_all add: single_start_def single_executor_def fifo_executor_def initThread_def
        ForEachExecutor_init_def term_initializeThread_def)
  have v: "wl (snd ?r) = []" "world (snd ?r) = 3" by code_simp+
  note T = single_thread_sequential [OF a run]
  have "sequential_loop single_executor 6 (wl single_start) (world single_start)
          = (Finished, wl (snd ?r), world (snd ?r))"
    using T [THEN conjunct2, THEN conjunct2, THEN conjunct2, THEN conjunct2, THEN conjunct2,
        THEN conjunct2, THEN conjunct2]
      nb bp ds by blast
  moreover have "set (calls (since single_start (snd ?r))) \<subseteq> {RunQueueSimple}"
    using T [THEN conjunct2, THEN conjunct2, THEN conjunct2, THEN conjunct1] nb by simp
  moreover have "applied (since single_start (snd ?r)) = pops (since single_start (snd ?r))"
    using T [THEN conjunct2, THEN conjunct2, THEN conjunct2, THEN conjunct2, THEN conjunct1]
    by simp
  moreover have "world (snd ?r)
      = apply_in_order single_executor (world single_start) (pops (since single_start (snd ?r)))"
    using T [THEN conjunct2, THEN conjunct2, THEN conjunct2, THEN conjunct2, THEN conjunct2,
        THEN conjunct1]
    by simp
  ultimately show ?thesis using a run nb bp ds w v by simp
qed

text \<open>
  C7, as the claim states it, fails: with one active thread and break enabled the
  executor never enters \<^verbatim>\<open>runQueueSimple\<close>; it enters \<^verbatim>\<open>runQueue<64>\<close>, which has
  the handler for \<^verbatim>\<open>ConflictFlag\<close>.
\<close>

theorem single_thread_counterexample:
  "activeThreads break_executor = 1
   \<and> RunQueueSimple \<notin> set (trace (snd (executor_call break_executor 3 break_start)))
   \<and> RunQueue SharedWL 64 \<in> set (trace (snd (executor_call break_executor 3 break_start)))"
  by code_simp

theorem runQueue_limit_witness:
  "couldAbort_of leader_executor
   \<and> RunQueue SharedWL 64
       \<in> set (since leader_start (snd (executor_call leader_executor 1 leader_start)))
   \<and> RunQueue SharedWL 0
       \<notin> set (since leader_start (snd (executor_call leader_executor 1 leader_start)))"
proof -
  let ?r = "executor_call leader_executor 1 leader_start"
  have run: "?r = (fst ?r, snd ?r)" by simp
  have c: "couldAbort_of leader_executor" by code_simp
  have l: "isLeader (threadPool leader_executor)" by code_simp
  have m: "RunQueue SharedWL 64 \<in> set (since leader_start (snd ?r))" by code_simp
  have "\<forall>n. RunQueue SharedWL n \<in> set (since leader_start (snd ?r)) \<longrightarrow> n = 64"
    using runQueue_limit [OF run, THEN conjunct1] l by simp
  then have "RunQueue SharedWL 0 \<notin> set (since leader_start (snd ?r))" by fastforce
  then show ?thesis using c m by blast
qed

text \<open>
  C6, as the claim states it, fails: a leader without break calls \<^verbatim>\<open>runQueue\<close> with the
  limit 64, and so does a thread that is not the leader, with break.
\<close>

theorem runQueue_limit_counterexample:
  "isLeader (threadPool leader_executor) \<and> \<not> needsBreak (cfg leader_executor)
   \<and> RunQueue SharedWL 64 \<in> set (trace (snd (executor_call leader_executor 1 leader_start)))
   \<and> \<not> isLeader (threadPool break_executor) \<and> needsBreak (cfg break_executor)
   \<and> RunQueue SharedWL 64 \<in> set (trace (snd (executor_call break_executor 1 break_start)))"
  by code_simp

theorem reported_commits_witness:
  "go flaky_executor True False 5 flaky_start
     = (Finished, snd (go flaky_executor True False 5 flaky_start))
   \<and> needsStats (cfg flaky_executor)
   \<and> stat_iterations (snd (go flaky_executor True False 5 flaky_start))
       - stat_conflicts (snd (go flaky_executor True False 5 flaky_start)) = 3
   \<and> n_committed (since flaky_start (snd (go flaky_executor True False 5 flaky_start))) = 3
   \<and> n_aborted (since flaky_start (snd (go flaky_executor True False 5 flaky_start))) = 2
   \<and> n_applied (since flaky_start (snd (go flaky_executor True False 5 flaky_start))) = 5
   \<and> go uncaught_executor False False 4 uncaught_start
       = (UncaughtConflict, snd (go uncaught_executor False False 4 uncaught_start))
   \<and> needsStats (cfg uncaught_executor)
   \<and> since uncaught_start (snd (go uncaught_executor False False 4 uncaught_start))
       = [SetFastPushBack, RunQueueSimple, WlPop 1, StartIteration, Apply 1 ConflictFlag,
          WlPush [101], ReportStat ''Conflicts'' 0, ReportStat ''Commits'' 1,
          ReportStat ''Pushes'' 0, ReportStat ''Iterations'' 1]
   \<and> stat_iterations (snd (go uncaught_executor False False 4 uncaught_start))
       - stat_conflicts (snd (go uncaught_executor False False 4 uncaught_start)) = 1
   \<and> n_committed (since uncaught_start (snd (go uncaught_executor False False 4 uncaught_start))) = 0"
proof -
  let ?r = "go flaky_executor True False 5 flaky_start"
  let ?u = "go uncaught_executor False False 4 uncaught_start"
  have "fst ?r = Finished" by code_simp
  then have run: "?r = (Finished, snd ?r)" by (metis prod.collapse)
  have st: "needsStats (cfg flaky_executor)"
    by (simp add: flaky_executor_def fifo_executor_def all_flags_def)
  have c: "n_committed (since flaky_start (snd ?r)) = 3"
    by (simp add: since_def flaky_run_trace flaky_start_trace n_committed_def)
  have a: "n_aborted (since flaky_start (snd ?r)) = 2"
    by (simp add: since_def flaky_run_trace flaky_start_trace)
  have "fst ?u = UncaughtConflict" by code_simp
  then have runu: "?u = (UncaughtConflict, snd ?u)" by (metis prod.collapse)
  have stu: "needsStats (cfg uncaught_executor)"
    by (simp add: uncaught_executor_def fifo_executor_def all_flags_def)
  have tu: "since uncaught_start (snd ?u)
       = [SetFastPushBack, RunQueueSimple, WlPop 1, StartIteration, Apply 1 ConflictFlag,
          WlPush [101], ReportStat ''Conflicts'' 0, ReportStat ''Commits'' 1,
          ReportStat ''Pushes'' 0, ReportStat ''Iterations'' 1]" by code_simp
  have cu: "n_committed (since uncaught_start (snd ?u)) = 0"
    unfolding tu by (simp add: n_committed_def)
  have 1: "stat_iterations (snd ?r) - stat_conflicts (snd ?r) = 3
      \<and> n_applied (since flaky_start (snd ?r)) = 5"
    using reported_commits [OF run st] c a by simp
  have 2: "stat_iterations (snd ?u) - stat_conflicts (snd ?u) = 1"
    using reported_commits [OF runu stu] cu by simp
  show ?thesis using run st c a runu stu tu cu 1 2 by simp
qed

theorem worker_exit_witness:
  "go chunk_executor False False 3 chunk_start
     = (Finished, snd (go chunk_executor False False 3 chunk_start))
   \<and> since chunk_start (snd (go chunk_executor False False 3 chunk_start))
       = [RunQueueSimple, WlPop 1, Apply 1 Returned, LocalTermination True,
          GlobalTermination True, CheckEmpty False, InitializeThread,
          BarrierWait, RunQueueSimple, WlPop 2, Apply 2 Returned,
          LocalTermination True, GlobalTermination True, CheckEmpty True,
          ReportStat ''Conflicts'' 0, ReportStat ''Commits'' 2,
          ReportStat ''Pushes'' 0, ReportStat ''Iterations'' 2]
   \<and> protocol Ready (since chunk_start (snd (go chunk_executor False False 3 chunk_start)))
       = Some (Checked True True)
   \<and> checkEmpty chunk_executor (snd (go chunk_executor False False 3 chunk_start))
   \<and> \<not> snd (termDetect (pair_start False))
   \<and> fst (go pair_executor False False 3 (pair_start False)) \<noteq> Finished
   \<and> since (pair_start False) (snd (go pair_executor False False 3 (pair_start False)))
       = [RunQueueSimple, WlPop 5, Apply 5 Returned, LocalTermination True,
          GlobalTermination False, RunQueueSimple, LocalTermination False,
          GlobalTermination False, RunQueueSimple, LocalTermination False,
          GlobalTermination False]
   \<and> fst (go pair_executor False False 3 (pair_start True)) = Finished
   \<and> protocol Ready
         [RunQueueSimple, LocalTermination True, GlobalTermination True, CheckEmpty False,
          RunQueueSimple :: nat event] = None
   \<and> protocol Ready
         [RunQueueSimple, LocalTermination False, CheckEmpty True :: nat event] = None"
proof -
  let ?r = "go chunk_executor False False 3 chunk_start"
  let ?w = "go pair_executor False False 3 (pair_start False)"
  have "fst ?r = Finished" by code_simp
  then have run: "?r = (Finished, snd ?r)" by (metis prod.collapse)
  have tr: "since chunk_start (snd ?r)
       = [RunQueueSimple, WlPop 1, Apply 1 Returned, LocalTermination True,
          GlobalTermination True, CheckEmpty False, InitializeThread,
          BarrierWait, RunQueueSimple, WlPop 2, Apply 2 Returned,
          LocalTermination True, GlobalTermination True, CheckEmpty True,
          ReportStat ''Conflicts'' 0, ReportStat ''Commits'' 2,
          ReportStat ''Pushes'' 0, ReportStat ''Iterations'' 2]" by code_simp
  have g: "globalTermination chunk_executor (termDetect (snd ?r))"
    by (simp add: chunk_executor_def)
  have nb: "\<not> needsBreak (cfg chunk_executor)" by (simp add: chunk_executor_def)
  note T = worker_exit [OF run]
  have p: "protocol Ready (since chunk_start (snd ?r))
      = Some (Checked True (checkEmpty chunk_executor (snd ?r)))"
    using T [THEN conjunct1] g by auto
  have c: "checkEmpty chunk_executor (snd ?r)"
    using T [THEN conjunct2, THEN conjunct1] nb by simp
  have runw: "?w = (fst ?w, snd ?w)" by simp
  have i0: "\<not> snd (termDetect (pair_start False))"
    by (simp add: pair_start_def ForEachExecutor_init_def)
  have nbw: "\<not> needsBreak (cfg pair_executor)" by (simp add: pair_executor_def)
  have cl: "(\<forall>w t. \<not> snd t \<longrightarrow> \<not> snd (localTermination pair_executor w t))
      \<and> (\<forall>t. \<not> snd t \<longrightarrow> \<not> snd (initializeThread pair_executor t))
      \<and> (\<forall>t. \<not> snd t \<longrightarrow> \<not> snd (barrier_wait pair_executor t))
      \<and> (\<forall>t. \<not> snd t \<longrightarrow> \<not> globalTermination pair_executor t)"
    by (simp add: pair_executor_def)
  have w: "fst ?w \<noteq> Finished"
    using worker_exit [where I = "\<lambda>t. \<not> snd t", OF runw, THEN conjunct2, THEN conjunct2,
        THEN conjunct2, THEN conjunct2, THEN conjunct1]
      cl i0 nbw by blast
  have tw: "since (pair_start False) (snd ?w)
       = [RunQueueSimple, WlPop 5, Apply 5 Returned, LocalTermination True,
          GlobalTermination False, RunQueueSimple, LocalTermination False,
          GlobalTermination False, RunQueueSimple, LocalTermination False,
          GlobalTermination False]" by code_simp
  have q: "fst (go pair_executor False False 3 (pair_start True)) = Finished" by code_simp
  have r1: "protocol Ready
         [RunQueueSimple, LocalTermination True, GlobalTermination True, CheckEmpty False,
          RunQueueSimple :: nat event] = None" by simp
  have r2: "protocol Ready
         [RunQueueSimple, LocalTermination False, CheckEmpty True :: nat event] = None" by simp
  show ?thesis using run tr p c i0 w tw q r1 r2 by simp
qed

end
